theory Spec2Isabelle
  imports Complex_Main "HOL-Library.Word"
begin

unbundle bit_operations_syntax

section \<open>Machine values\<close>

type_synonym u8 = "8 word"
type_synonym u16 = "16 word"
type_synonym u32 = "32 word"
type_synonym u64 = "64 word"

text \<open>
  C \<open>float\<close> values.  The model keeps the special values of IEEE 754 that the code can
  produce (\<open>0/0\<close> is a NaN, \<open>x/0\<close> an infinity, every ordered comparison with a NaN is
  false) and computes finite results exactly: rounding to 24 bits, overflow to an
  infinity and the sign of zero are not modelled.  The theorems below only use facts that
  rounding preserves.
\<close>

datatype cfloat = Fin real | PInf | NInf | NaN

fun fneg :: "cfloat \<Rightarrow> cfloat" where
  "fneg (Fin x) = Fin (- x)"
| "fneg PInf = NInf"
| "fneg NInf = PInf"
| "fneg NaN = NaN"

fun fadd :: "cfloat \<Rightarrow> cfloat \<Rightarrow> cfloat" where
  "fadd (Fin x) (Fin y) = Fin (x + y)"
| "fadd NaN _ = NaN"
| "fadd _ NaN = NaN"
| "fadd PInf NInf = NaN"
| "fadd NInf PInf = NaN"
| "fadd PInf _ = PInf"
| "fadd _ PInf = PInf"
| "fadd NInf _ = NInf"
| "fadd _ NInf = NInf"

definition fsub :: "cfloat \<Rightarrow> cfloat \<Rightarrow> cfloat" where
  "fsub a b = fadd a (fneg b)"

definition fsign :: "real \<Rightarrow> cfloat" where
  "fsign s = (if s = 0 then NaN else if 0 < s then PInf else NInf)"

fun fmul :: "cfloat \<Rightarrow> cfloat \<Rightarrow> cfloat" where
  "fmul (Fin x) (Fin y) = Fin (x * y)"
| "fmul NaN _ = NaN"
| "fmul _ NaN = NaN"
| "fmul (Fin x) PInf = fsign x"
| "fmul (Fin x) NInf = fsign (- x)"
| "fmul PInf (Fin y) = fsign y"
| "fmul NInf (Fin y) = fsign (- y)"
| "fmul PInf PInf = PInf"
| "fmul NInf NInf = PInf"
| "fmul PInf NInf = NInf"
| "fmul NInf PInf = NInf"

fun fdiv :: "cfloat \<Rightarrow> cfloat \<Rightarrow> cfloat" where
  "fdiv (Fin x) (Fin y) = (if y = 0 then fsign x else Fin (x / y))"
| "fdiv NaN _ = NaN"
| "fdiv _ NaN = NaN"
| "fdiv (Fin x) _ = Fin 0"
| "fdiv PInf (Fin y) = (if 0 \<le> y then PInf else NInf)"
| "fdiv NInf (Fin y) = (if 0 \<le> y then NInf else PInf)"
| "fdiv _ _ = NaN"

fun flt :: "cfloat \<Rightarrow> cfloat \<Rightarrow> bool" where
  "flt (Fin x) (Fin y) = (x < y)"
| "flt NaN _ = False"
| "flt _ NaN = False"
| "flt _ NInf = False"
| "flt PInf _ = False"
| "flt _ _ = True"

fun feq :: "cfloat \<Rightarrow> cfloat \<Rightarrow> bool" where
  "feq NaN _ = False"
| "feq _ NaN = False"
| "feq a b = (a = b)"

definition fge :: "cfloat \<Rightarrow> cfloat \<Rightarrow> bool" where
  "fge a b = (flt b a \<or> feq a b)"

text \<open>
  The exponential function, as a constant of its own without code equations: a value
  with an exponential in it is computed up to that exponential.
\<close>

definition real_exp :: "real \<Rightarrow> real" where
  [code del]: "real_exp x = exp x"

fun fexp :: "cfloat \<Rightarrow> cfloat" where
  "fexp (Fin x) = Fin (real_exp x)"
| "fexp PInf = PInf"
| "fexp NInf = Fin 0"
| "fexp NaN = NaN"

fun fceil :: "cfloat \<Rightarrow> cfloat" where
  "fceil (Fin x) = Fin (of_int \<lceil>x\<rceil>)"
| "fceil a = a"

text \<open>Conversion of an integer to \<open>float\<close>, as in \<open>(float) sum\<close>.\<close>

definition float_of_int :: "int \<Rightarrow> cfloat" where
  "float_of_int i = Fin (of_int i)"

definition float_of_nat :: "nat \<Rightarrow> cfloat" where
  "float_of_nat n = Fin (of_nat n)"

text \<open>
  \<open>uint32_t(x)\<close>: the value is truncated towards zero; the conversion is undefined
  (\<open>None\<close>) when the truncated value is not representable.
\<close>

fun uint32_of_float :: "cfloat \<Rightarrow> u32 option" where
  "uint32_of_float (Fin x) =
     (if - 1 < x \<and> x < 2 ^ 32 then Some (word_of_int (if x < 0 then 0 else \<lfloor>x\<rfloor>)) else None)"
| "uint32_of_float _ = None"

text \<open>The closed interval \<open>[0,1]\<close> of \<open>float\<close>, with C's comparisons.\<close>

definition in_unit_interval :: "cfloat \<Rightarrow> bool" where
  "in_unit_interval a = (fge a (Fin 0) \<and> fge (Fin 1) a)"

section \<open>NEON intrinsics\<close>

text \<open>
  A \<open>uint8x16_t\<close> register is the list of its sixteen lanes, lane 0 first.  The
  intrinsics work lane by lane; addition wraps in the lane's width.
\<close>

type_synonym uint8x16_t = "u8 list"

definition NLANES_8 :: nat where
  "NLANES_8 = 16"

definition UCHAR_MAX :: nat where
  "UCHAR_MAX = 255"

definition vdupq_n_u8 :: "u8 \<Rightarrow> uint8x16_t" where
  "vdupq_n_u8 x = replicate 16 x"

definition vld1q_u8 :: "u8 list \<Rightarrow> nat \<Rightarrow> uint8x16_t" where
  "vld1q_u8 p k = take 16 (drop k p)"

definition vst1q_u8 :: "u8 list \<Rightarrow> nat \<Rightarrow> uint8x16_t \<Rightarrow> u8 list" where
  "vst1q_u8 p k v = take k p @ v @ drop (k + 16) p"

definition vceqq_u8 :: "uint8x16_t \<Rightarrow> uint8x16_t \<Rightarrow> uint8x16_t" where
  "vceqq_u8 a b = map2 (\<lambda>x y. if x = y then 255 else 0) a b"

definition vorrq_u8 :: "uint8x16_t \<Rightarrow> uint8x16_t \<Rightarrow> uint8x16_t" where
  "vorrq_u8 a b = map2 (\<lambda>x y. x OR y) a b"

definition vandq_u8 :: "uint8x16_t \<Rightarrow> uint8x16_t \<Rightarrow> uint8x16_t" where
  "vandq_u8 a b = map2 (\<lambda>x y. x AND y) a b"

definition vbicq_u8 :: "uint8x16_t \<Rightarrow> uint8x16_t \<Rightarrow> uint8x16_t" where
  "vbicq_u8 a b = map2 (\<lambda>x y. x AND NOT y) a b"

definition vmvnq_u8 :: "uint8x16_t \<Rightarrow> uint8x16_t" where
  "vmvnq_u8 a = map (\<lambda>x. NOT x) a"

definition vaddq_u8 :: "uint8x16_t \<Rightarrow> uint8x16_t \<Rightarrow> uint8x16_t" where
  "vaddq_u8 a b = map2 (\<lambda>x y. x + y) a b"

text \<open>
  \<open>vpaddl\<close>: adjacent lanes are widened to twice their width and added, so a register
  of \<open>2n\<close> lanes becomes one of \<open>n\<close> lanes.
\<close>

fun vpaddl :: "'a::len word list \<Rightarrow> 'b::len word list" where
  "vpaddl (x # y # r) = (ucast x + ucast y) # vpaddl r"
| "vpaddl _ = []"

definition vpaddlq_u8 :: "u8 list \<Rightarrow> u16 list" where
  "vpaddlq_u8 a = vpaddl a"

definition vpaddlq_u16 :: "u16 list \<Rightarrow> u32 list" where
  "vpaddlq_u16 a = vpaddl a"

definition vpaddlq_u32 :: "u32 list \<Rightarrow> u64 list" where
  "vpaddlq_u32 a = vpaddl a"

text \<open>\<open>vaddvq_u16\<close>: the sum of the lanes, in 16 bits.\<close>

definition vaddvq_u16 :: "u16 list \<Rightarrow> u16" where
  "vaddvq_u16 a = foldl (+) 0 a"

definition vgetq_lane_u64 :: "u64 list \<Rightarrow> nat \<Rightarrow> u64" where
  "vgetq_lane_u64 a i = a ! i"

text \<open>
  \<open>vhaddq_u8\<close>, with the preprocessor's choice as the flag \<open>aarch64\<close>: on AArch64 the
  lanes are paired into 16 bits and summed across; otherwise they are paired three times
  and the two 64-bit lanes are added.  The result is returned as a \<open>uint32_t\<close>.
\<close>

definition vhaddq_u8 :: "bool \<Rightarrow> uint8x16_t \<Rightarrow> u32" where
  "vhaddq_u8 aarch64 a =
     (if aarch64 then
        (let paired = vpaddlq_u8 a in ucast (vaddvq_u16 paired))
      else
        (let paired = vpaddlq_u32 (vpaddlq_u16 (vpaddlq_u8 a))
         in ucast (vgetq_lane_u64 paired 0 + vgetq_lane_u64 paired 1)))"

text \<open>
  The loop tests compare \<open>(int) (k + NLANES_8)\<close> with an \<open>int\<close>: the sum is computed
  in \<open>size_t\<close> and converted to a 32-bit \<open>int\<close>, which keeps the low 32 bits.
\<close>

definition int_of_size_t :: "nat \<Rightarrow> int" where
  "int_of_size_t x = sint (word_of_nat x :: u32)"

section \<open>The alignment\<close>

text \<open>
  The fields of \<open>Alignment\<close> that this file reads.  A residue is a byte.
  \<open>isAA\<close> is the outcome of the test \<open>getAlignmentType() & SequenceTypes::AA\<close>, and
  \<open>gapsWindow\<close> is what \<open>Statistics->gaps->getGapsWindow()\<close> returns once the gap
  statistics have been calculated; both come from collaborators outside this file.
\<close>

record alignment =
  originalNumberOfSequences :: nat
  originalNumberOfResidues :: nat
  numberOfResidues :: nat
  sequences :: "u8 list list"
  seqsName :: "string list"
  isAA :: bool
  saveSequences :: "int list"
  saveResidues :: "int list"
  gapsWindow :: "int list"
  identities :: "nat \<Rightarrow> nat \<Rightarrow> cfloat"

definition chr_gap :: u8 where
  "chr_gap = of_char CHR ''-''"

definition indet_symbol :: "alignment \<Rightarrow> u8" where
  "indet_symbol alig = (if isAA alig then of_char CHR ''X'' else of_char CHR ''N'')"

text \<open>
  \<open>std::string::data()\<close>: the characters followed by the terminating NUL, which may
  be read.  A read beyond it is undefined; the loops below return \<open>None\<close> there.
\<close>

definition data :: "u8 list \<Rightarrow> u8 list" where
  "data s = s @ [0]"

text \<open>
  A matrix \<open>float **\<close>, by row and column; \<open>identities\<close> above is one.  Memory that
  \<open>new\<close> returns holds indeterminate values: the functions that allocate take them as
  the argument \<open>fresh\<close>.
\<close>

type_synonym matrix = "nat \<Rightarrow> nat \<Rightarrow> cfloat"

text \<open>\<open>m[i][j] = m[j][i] = v\<close>: the right assignment first.\<close>

definition assign_both :: "matrix \<Rightarrow> nat \<Rightarrow> nat \<Rightarrow> cfloat \<Rightarrow> matrix" where
  "assign_both m i j v =
     (let m1 = m(j := (m j)(i := v)) in m1(i := (m1 i)(j := v)))"

datatype ErrorCode = IncorrectSymbol | UndefinedSymbol | NoResidueSequences

text \<open>A call of \<open>debug.report\<close>: the code and its string arguments.\<close>

type_synonym report = "ErrorCode \<times> string list"

section \<open>NEONSimilarity::calculateMatrixIdentity\<close>

text \<open>
  The body of both vector loops: the two counters of sixteen 8-bit lanes after the
  sixteen positions of \<open>seqi\<close> and \<open>seqj\<close>.
\<close>

definition identity_step ::
  "u8 \<Rightarrow> uint8x16_t \<Rightarrow> uint8x16_t \<Rightarrow> uint8x16_t \<times> uint8x16_t \<Rightarrow> uint8x16_t \<times> uint8x16_t" where
  "identity_step indet seqi seqj acc =
     (case acc of (sum_acc, len_acc) \<Rightarrow>
       (let allindet = vdupq_n_u8 indet;
            allgap = vdupq_n_u8 chr_gap;
            ONES = vdupq_n_u8 1;
            gapsi = vorrq_u8 (vceqq_u8 seqi allgap) (vceqq_u8 seqi allindet);
            gapsj = vorrq_u8 (vceqq_u8 seqj allgap) (vceqq_u8 seqj allindet);
            eq = vceqq_u8 seqi seqj
        in (vaddq_u8 sum_acc (vandq_u8 eq (vbicq_u8 ONES (vorrq_u8 gapsi gapsj))),
            vaddq_u8 len_acc (vbicq_u8 ONES (vandq_u8 gapsi gapsj)))))"

text \<open>The unrolled inner loop \<open>for (l = 0; l < UCHAR_MAX; l++, k += NLANES_8)\<close>.\<close>

function identity_unrolled ::
  "u8 \<Rightarrow> u8 list \<Rightarrow> u8 list \<Rightarrow> nat \<Rightarrow> nat \<Rightarrow> uint8x16_t \<times> uint8x16_t
     \<Rightarrow> nat \<times> uint8x16_t \<times> uint8x16_t" where
  "identity_unrolled indet datai dataj l k acc =
     (if l < UCHAR_MAX
      then identity_unrolled indet datai dataj (l + 1) (k + NLANES_8)
             (identity_step indet (vld1q_u8 datai k) (vld1q_u8 dataj k) acc)
      else (k, acc))"
  by pat_completeness auto
termination
  by (relation "measure (\<lambda>(indet, datai, dataj, l, k, acc). UCHAR_MAX - l)") auto

declare identity_unrolled.simps [simp del]

lemma identity_unrolled_index:
  "fst (identity_unrolled indet datai dataj l k acc) = k + NLANES_8 * (UCHAR_MAX - l)"
proof (induction indet datai dataj l k acc rule: identity_unrolled.induct)
  case (1 indet datai dataj l k acc)
  show ?case
  proof (cases "l < UCHAR_MAX")
    case True
    then have "UCHAR_MAX - l = Suc (UCHAR_MAX - (l + 1))" by simp
    with True "1.IH" show ?thesis
      by (subst identity_unrolled.simps) simp
  next
    case False
    then show ?thesis
      by (subst identity_unrolled.simps) simp
  qed
qed

text \<open>
  The first loop: blocks of \<open>UCHAR_MAX\<close> vector steps, each followed by the merge of
  the lane counters into \<open>sum\<close> and \<open>length\<close> (here \<open>csum\<close> and \<open>clen\<close>).  The state is
  \<open>(k, sum, length, sum_acc, len_acc)\<close>.
\<close>

function identity_blocks ::
  "bool \<Rightarrow> u8 \<Rightarrow> nat \<Rightarrow> u8 list \<Rightarrow> u8 list \<Rightarrow> nat \<Rightarrow> nat \<Rightarrow> nat
     \<Rightarrow> uint8x16_t \<times> uint8x16_t \<Rightarrow> (nat \<times> nat \<times> nat \<times> uint8x16_t \<times> uint8x16_t) option" where
  "identity_blocks aarch64 indet n datai dataj k csum clen acc =
     (if int_of_size_t (k + NLANES_8 * UCHAR_MAX) < int n then
        (if k + NLANES_8 * UCHAR_MAX \<le> length datai \<and> k + NLANES_8 * UCHAR_MAX \<le> length dataj
         then
           (case identity_unrolled indet datai dataj 0 k acc of (k', sum_acc, len_acc) \<Rightarrow>
              identity_blocks aarch64 indet n datai dataj k'
                (csum + unat (vhaddq_u8 aarch64 sum_acc))
                (clen + unat (vhaddq_u8 aarch64 len_acc))
                (vdupq_n_u8 0, vdupq_n_u8 0))
         else None)
      else Some (k, csum, clen, acc))"
  by pat_completeness auto
termination
proof (relation "measure (\<lambda>(aarch64, indet, n, datai, dataj, k, csum, clen, acc). Suc (length datai) - k)")
  show "wf (measure (\<lambda>(aarch64, indet, n, datai, dataj, k, csum, clen, acc). Suc (length datai) - k))"
    by simp
next
  fix aarch64 :: bool and indet :: u8 and n :: nat and datai dataj :: "u8 list"
    and k csum clen :: nat and acc x :: "uint8x16_t \<times> uint8x16_t" and k' :: nat
    and y sum_acc len_acc :: uint8x16_t
  assume b: "k + NLANES_8 * UCHAR_MAX \<le> length datai \<and> k + NLANES_8 * UCHAR_MAX \<le> length dataj"
    and r: "(k', x) = identity_unrolled indet datai dataj 0 k acc"
  have "k' = k + NLANES_8 * UCHAR_MAX"
    using identity_unrolled_index[of indet datai dataj 0 k acc] r [symmetric] by simp
  with b show "((aarch64, indet, n, datai, dataj, k',
                 csum + unat (vhaddq_u8 aarch64 sum_acc), clen + unat (vhaddq_u8 aarch64 len_acc),
                 vdupq_n_u8 0, vdupq_n_u8 0),
                aarch64, indet, n, datai, dataj, k, csum, clen, acc)
               \<in> measure (\<lambda>(aarch64, indet, n, datai, dataj, k, csum, clen, acc). Suc (length datai) - k)"
    by (simp add: NLANES_8_def UCHAR_MAX_def, arith)
qed

declare identity_blocks.simps [simp del]


text \<open>The second loop: the remaining whole vectors.\<close>

function identity_vectors ::
  "u8 \<Rightarrow> nat \<Rightarrow> u8 list \<Rightarrow> u8 list \<Rightarrow> nat \<Rightarrow> uint8x16_t \<times> uint8x16_t
     \<Rightarrow> (nat \<times> uint8x16_t \<times> uint8x16_t) option" where
  "identity_vectors indet n datai dataj k acc =
     (if int_of_size_t (k + NLANES_8) < int n then
        (if k + NLANES_8 \<le> length datai \<and> k + NLANES_8 \<le> length dataj
         then identity_vectors indet n datai dataj (k + NLANES_8)
                (identity_step indet (vld1q_u8 datai k) (vld1q_u8 dataj k) acc)
         else None)
      else Some (k, acc))"
  by pat_completeness auto
termination
  by (relation "measure (\<lambda>(indet, n, datai, dataj, k, acc). Suc (length datai) - k)")
     (auto simp: NLANES_8_def)

declare identity_vectors.simps [simp del]


text \<open>The scalar tail, one position at a time.\<close>

function identity_tail ::
  "u8 \<Rightarrow> nat \<Rightarrow> u8 list \<Rightarrow> u8 list \<Rightarrow> nat \<Rightarrow> nat \<Rightarrow> nat \<Rightarrow> (nat \<times> nat) option" where
  "identity_tail indet n datai dataj k csum clen =
     (if k < n then
        (if k < length datai \<and> k < length dataj then
           (let gapi = (datai ! k = chr_gap \<or> datai ! k = indet);
                gapj = (dataj ! k = chr_gap \<or> dataj ! k = indet)
            in identity_tail indet n datai dataj (k + 1)
                 (csum + (if \<not> gapi \<and> \<not> gapj \<and> datai ! k = dataj ! k then 1 else 0))
                 (clen + (if \<not> gapi \<or> \<not> gapj then 1 else 0)))
         else None)
      else Some (csum, clen))"
  by pat_completeness auto
termination
  by (relation "measure (\<lambda>(indet, n, datai, dataj, k, csum, clen). n - k)") auto

declare identity_tail.simps [simp del]


text \<open>
  The scan of one pair of sequences: \<open>sum\<close> and \<open>length\<close> after the three loops.  The
  counters are \<open>int\<close> in the source and count at most one per position, so they are
  natural numbers here.
\<close>

definition identity_counts ::
  "bool \<Rightarrow> u8 \<Rightarrow> nat \<Rightarrow> u8 list \<Rightarrow> u8 list \<Rightarrow> (nat \<times> nat) option" where
  "identity_counts aarch64 indet n datai dataj =
     (case identity_blocks aarch64 indet n datai dataj 0 0 0 (vdupq_n_u8 0, vdupq_n_u8 0) of
        None \<Rightarrow> None
      | Some (k, csum, clen, acc) \<Rightarrow>
          (case identity_vectors indet n datai dataj k acc of
             None \<Rightarrow> None
           | Some (k', sum_acc, len_acc) \<Rightarrow>
               identity_tail indet n datai dataj k'
                 (csum + unat (vhaddq_u8 aarch64 sum_acc))
                 (clen + unat (vhaddq_u8 aarch64 len_acc))))"

text \<open>\<open>1.0F - ((float) sum / length)\<close>\<close>

definition identity_distance :: "nat \<times> nat \<Rightarrow> cfloat" where
  "identity_distance c = (case c of (csum, clen) \<Rightarrow>
     fsub (Fin 1) (fdiv (float_of_nat csum) (float_of_nat clen)))"

text \<open>The loop over \<open>j\<close> for one \<open>i\<close>, and the loop over \<open>i\<close>.\<close>

function identity_row ::
  "bool \<Rightarrow> alignment \<Rightarrow> nat \<Rightarrow> nat \<Rightarrow> matrix \<Rightarrow> matrix option" where
  "identity_row aarch64 alig i j m =
     (if j < originalNumberOfSequences alig then
        (case identity_counts aarch64 (indet_symbol alig) (originalNumberOfResidues alig)
                (data (sequences alig ! i)) (data (sequences alig ! j)) of
           None \<Rightarrow> None
         | Some c \<Rightarrow> identity_row aarch64 alig i (j + 1) (assign_both m i j (identity_distance c)))
      else Some m)"
  by pat_completeness auto
termination
  by (relation "measure (\<lambda>(aarch64, alig, i, j, m). originalNumberOfSequences alig - j)") auto

declare identity_row.simps [simp del]


function identity_rows ::
  "bool \<Rightarrow> alignment \<Rightarrow> nat \<Rightarrow> matrix \<Rightarrow> matrix option" where
  "identity_rows aarch64 alig i m =
     (if i < originalNumberOfSequences alig then
        (case identity_row aarch64 alig i (i + 1) m of
           None \<Rightarrow> None
         | Some m' \<Rightarrow> identity_rows aarch64 alig (i + 1) m')
      else Some m)"
  by pat_completeness auto
termination
  by (relation "measure (\<lambda>(aarch64, alig, i, m). originalNumberOfSequences alig - i)") auto

declare identity_rows.simps [simp del]


text \<open>
  The object: the alignment, the similarity matrix (absent when \<open>nullptr\<close>), the
  memoized identity matrix (absent when \<open>nullptr\<close>) and the vector \<open>MDK\<close>.
\<close>

record similarityMatrix =
  vhash :: "int list"
  distMat :: "cfloat list list"

record similarity =
  alig :: alignment
  simMatrix :: "similarityMatrix option"
  matrixIdentity :: "matrix option"
  MDK :: "cfloat list"

text \<open>
  \<open>calculateMatrixIdentity\<close>.  The rows come from \<open>new float[]\<close>, whose contents are
  indeterminate: \<open>fresh\<close> is what the allocation holds.  \<open>None\<close> is a read out of
  bounds.
\<close>

definition calculateMatrixIdentity :: "bool \<Rightarrow> matrix \<Rightarrow> similarity \<Rightarrow> similarity option" where
  "calculateMatrixIdentity aarch64 fresh st =
     (if matrixIdentity st \<noteq> None then Some st
      else (case identity_rows aarch64 (alig st) 0 fresh of
              None \<Rightarrow> None
            | Some m \<Rightarrow> Some (st\<lparr>matrixIdentity := Some m\<rparr>)))"

section \<open>NEONSimilarity::calculateVectors\<close>

text \<open>
  Modelled from the spec: \<open>utils::toUpper\<close>, which is declared in \<open>utils.h\<close> and is not in
  this file; the specification says that a residue is tested "after uppercasing".  A
  lower-case letter becomes the upper-case one, every other character is unchanged.
\<close>

definition toUpper :: "u8 \<Rightarrow> u8" where
  "toUpper c = (if of_char CHR ''a'' \<le> c \<and> c \<le> of_char CHR ''z''
                then c - (of_char CHR ''a'' - of_char CHR ''A'') else c)"

text \<open>\<open>std::string(1, letter)\<close>\<close>

definition string_of_letter :: "u8 \<Rightarrow> string" where
  "string_of_letter letter = [char_of (unat letter)]"

text \<open>
  The loop that fills the column buffers \<open>colnum\<close> and \<open>colgap\<close> for column \<open>i\<close>.  It
  stops with the report of the first residue that is not defined by the similarity
  matrix.  \<open>colnum\<close> is a vector of \<open>char\<close> in the source; the class indices it holds are
  small and are kept as the \<open>int\<close> of \<open>vhash\<close> here.
\<close>

function fill_column ::
  "alignment \<Rightarrow> similarityMatrix \<Rightarrow> nat \<Rightarrow> nat \<Rightarrow> int list \<times> int list
     \<Rightarrow> report + int list \<times> int list" where
  "fill_column al sm i j bufs =
     (if j < originalNumberOfSequences al then
        (case bufs of (colnum, colgap) \<Rightarrow>
          (let letter = toUpper (sequences al ! j ! i) in
             if letter = indet_symbol al \<or> letter = chr_gap
             then fill_column al sm i (j + 1) (colnum, colgap[j := 1])
             else if letter < of_char CHR ''A'' \<or> letter > of_char CHR ''Z''
             then Inl (IncorrectSymbol, [string_of_letter letter])
             else if vhash sm ! unat (letter - of_char CHR ''A'') = - 1
             then Inl (UndefinedSymbol, [string_of_letter letter])
             else fill_column al sm i (j + 1)
                    (colnum[j := vhash sm ! unat (letter - of_char CHR ''A'')], colgap[j := 0])))
      else Inr bufs)"
  by pat_completeness auto
termination
  by (relation "measure (\<lambda>(al, sm, i, j, bufs). originalNumberOfSequences al - j)") auto

declare fill_column.simps [simp del]

text \<open>
  The two loops that accumulate \<open>num\<close> and \<open>den\<close> over the pairs \<open>j < k\<close> of residues
  of the column that are not gaps.
\<close>

function pairs_inner ::
  "nat \<Rightarrow> int list \<Rightarrow> int list \<Rightarrow> cfloat list \<Rightarrow> (nat \<Rightarrow> cfloat) \<Rightarrow> nat
     \<Rightarrow> cfloat \<times> cfloat \<Rightarrow> cfloat \<times> cfloat" where
  "pairs_inner N colnum colgap distRow identityRow k acc =
     (if k < N then
        (if colgap ! k \<noteq> 0 then pairs_inner N colnum colgap distRow identityRow (k + 1) acc
         else
           (case acc of (num, den) \<Rightarrow>
             (let numB = colnum ! k
              in pairs_inner N colnum colgap distRow identityRow (k + 1)
                   (fadd num (fmul (identityRow k) (distRow ! nat numB)),
                    fadd den (identityRow k)))))
      else acc)"
  by pat_completeness auto
termination
  by (relation "measure (\<lambda>(N, colnum, colgap, distRow, identityRow, k, acc). N - k)") auto

declare pairs_inner.simps [simp del]

function pairs_outer ::
  "nat \<Rightarrow> similarityMatrix \<Rightarrow> matrix \<Rightarrow> int list \<Rightarrow> int list \<Rightarrow> nat
     \<Rightarrow> cfloat \<times> cfloat \<Rightarrow> cfloat \<times> cfloat" where
  "pairs_outer N sm m colnum colgap j acc =
     (if j < N then
        (if colgap ! j \<noteq> 0 then pairs_outer N sm m colnum colgap (j + 1) acc
         else
           (let numA = colnum ! j;
                distRow = distMat sm ! nat numA;
                identityRow = m j
            in pairs_outer N sm m colnum colgap (j + 1)
                 (pairs_inner N colnum colgap distRow identityRow (j + 1) acc)))
      else acc)"
  by pat_completeness auto
termination
  by (relation "measure (\<lambda>(N, sm, m, colnum, colgap, j, acc). N - j)") auto

declare pairs_outer.simps [simp del]

text \<open>The score of a column from its \<open>num\<close> and \<open>den\<close>.\<close>

definition column_MDK :: "cfloat \<times> cfloat \<Rightarrow> cfloat" where
  "column_MDK acc = (case acc of (num, den) \<Rightarrow>
     (if feq den (Fin 0) then Fin 0
      else (let Q = fdiv num den
            in if flt Q (Fin 0) then Fin 1 else fexp (fneg Q))))"

text \<open>
  The literal \<open>0.8F\<close> is the \<open>float\<close> nearest to 0.8, and
  \<open>gapThreshold = 0.8F * alig->numberOfResidues\<close>.
\<close>

definition float_0_8 :: cfloat where
  "float_0_8 = Fin (13421773 / 16777216)"

definition gapThreshold :: "alignment \<Rightarrow> cfloat" where
  "gapThreshold al = fmul float_0_8 (float_of_nat (numberOfResidues al))"

text \<open>
  The loop over the columns.  The state is \<open>MDK\<close> and the two column buffers; the result
  is whether the loop reached its end, \<open>MDK\<close> as it was left, and the report made.
\<close>

function columns_loop ::
  "bool \<Rightarrow> alignment \<Rightarrow> similarityMatrix \<Rightarrow> matrix \<Rightarrow> nat
     \<Rightarrow> cfloat list \<times> int list \<times> int list \<Rightarrow> bool \<times> cfloat list \<times> report list" where
  "columns_loop cutByGap al sm m i st =
     (if i < originalNumberOfResidues al then
        (case st of (mdk, bufs) \<Rightarrow>
          (if cutByGap \<and> fge (float_of_int (gapsWindow al ! i)) (gapThreshold al)
           then columns_loop cutByGap al sm m (i + 1) (mdk[i := Fin 0], bufs)
           else
             (case fill_column al sm i 0 bufs of
                Inl rep \<Rightarrow> (False, mdk, [rep])
              | Inr (colnum, colgap) \<Rightarrow>
                  columns_loop cutByGap al sm m (i + 1)
                    (mdk[i := column_MDK (pairs_outer (originalNumberOfSequences al) sm m
                                            colnum colgap 0 (Fin 0, Fin 0))],
                     colnum, colgap))))
      else (case st of (mdk, bufs) \<Rightarrow> (True, mdk, [])))"
  by pat_completeness auto
termination
  by (relation "measure (\<lambda>(cutByGap, al, sm, m, i, st). originalNumberOfResidues al - i)") auto

declare columns_loop.simps [simp del]

text \<open>
  \<open>calculateVectors\<close>: the value returned, the object as it is left and the reports.
  \<open>None\<close> is a read out of bounds in \<open>calculateMatrixIdentity\<close>.
\<close>

definition calculateVectors ::
  "bool \<Rightarrow> matrix \<Rightarrow> bool \<Rightarrow> similarity \<Rightarrow> (bool \<times> similarity \<times> report list) option" where
  "calculateVectors aarch64 fresh cutByGap st =
     (case simMatrix st of
        None \<Rightarrow> Some (False, st, [])
      | Some sm \<Rightarrow>
          (case (if matrixIdentity st = None then calculateMatrixIdentity aarch64 fresh st
                 else Some st) of
             None \<Rightarrow> None
           | Some st1 \<Rightarrow>
               (case matrixIdentity st1 of
                  None \<Rightarrow> None
                | Some m \<Rightarrow>
                    (let N = originalNumberOfSequences (alig st1);
                         colnum = replicate N 0;
                         colgap = replicate N 0
                     in (case columns_loop cutByGap (alig st1) sm m 0 (MDK st1, colnum, colgap) of
                           (ok, mdk, reps) \<Rightarrow>
                             (if ok then Some (True, st1\<lparr>MDK := mdk, matrixIdentity := None\<rparr>, reps)
                              else Some (False, st1\<lparr>MDK := mdk\<rparr>, reps)))))))"


section \<open>NEONCleaner\<close>

text \<open>
  The object: the alignment and the three buffers.  \<open>hits\<close> and \<open>hits_u8\<close> come from
  \<open>malloc\<close>; \<open>h32\<close> and \<open>h8\<close> are their indeterminate contents.
\<close>

record cleaner =
  calig :: alignment
  hits :: "u32 list"
  hits_u8 :: "u8 list"
  skipResidues :: "u8 list"

definition NEONCleaner :: "alignment \<Rightarrow> u32 list \<Rightarrow> u8 list \<Rightarrow> cleaner" where
  "NEONCleaner parent h32 h8 =
     \<lparr>calig = parent, hits = h32, hits_u8 = h8,
      skipResidues = map (\<lambda>i. if saveResidues parent ! i = - 1 then 255 else 0)
                         [0..<originalNumberOfResidues parent]\<rparr>"

subsection \<open>calculateSeqIdentity\<close>

text \<open>The body of both vector loops; the counters are \<open>(dst_acc, hit_acc)\<close>.\<close>

definition seqidentity_step ::
  "u8 \<Rightarrow> uint8x16_t \<Rightarrow> uint8x16_t \<Rightarrow> uint8x16_t \<Rightarrow> uint8x16_t \<times> uint8x16_t
     \<Rightarrow> uint8x16_t \<times> uint8x16_t" where
  "seqidentity_step indet seqi seqj skip acc =
     (case acc of (dst_acc, hit_acc) \<Rightarrow>
       (let allindet = vdupq_n_u8 indet;
            allgap = vdupq_n_u8 chr_gap;
            ONES = vdupq_n_u8 1;
            eq = vceqq_u8 seqi seqj;
            gapsi = vorrq_u8 (vceqq_u8 seqi allgap) (vceqq_u8 seqi allindet);
            gapsj = vorrq_u8 (vceqq_u8 seqj allgap) (vceqq_u8 seqj allindet);
            mask = vbicq_u8 (vbicq_u8 ONES (vandq_u8 gapsi gapsj)) skip
        in (vaddq_u8 dst_acc mask, vaddq_u8 hit_acc (vandq_u8 eq mask))))"

function seqidentity_unrolled ::
  "u8 \<Rightarrow> u8 list \<Rightarrow> u8 list \<Rightarrow> u8 list \<Rightarrow> nat \<Rightarrow> nat \<Rightarrow> uint8x16_t \<times> uint8x16_t
     \<Rightarrow> nat \<times> uint8x16_t \<times> uint8x16_t" where
  "seqidentity_unrolled indet datai dataj skipres l k acc =
     (if l < UCHAR_MAX
      then seqidentity_unrolled indet datai dataj skipres (l + 1) (k + NLANES_8)
             (seqidentity_step indet (vld1q_u8 datai k) (vld1q_u8 dataj k) (vld1q_u8 skipres k) acc)
      else (k, acc))"
  by pat_completeness auto
termination
  by (relation "measure (\<lambda>(indet, datai, dataj, skipres, l, k, acc). UCHAR_MAX - l)") auto

declare seqidentity_unrolled.simps [simp del]

lemma seqidentity_unrolled_index:
  "fst (seqidentity_unrolled indet datai dataj skipres l k acc) = k + NLANES_8 * (UCHAR_MAX - l)"
proof (induction indet datai dataj skipres l k acc rule: seqidentity_unrolled.induct)
  case (1 indet datai dataj skipres l k acc)
  show ?case
  proof (cases "l < UCHAR_MAX")
    case True
    then have "UCHAR_MAX - l = Suc (UCHAR_MAX - (l + 1))" by simp
    with True "1.IH" show ?thesis
      by (subst seqidentity_unrolled.simps) simp
  next
    case False
    then show ?thesis
      by (subst seqidentity_unrolled.simps) simp
  qed
qed

text \<open>The state of the first loop is \<open>(k, dst, hit, dst_acc, hit_acc)\<close>.\<close>

function seqidentity_blocks ::
  "bool \<Rightarrow> u8 \<Rightarrow> nat \<Rightarrow> u8 list \<Rightarrow> u8 list \<Rightarrow> u8 list \<Rightarrow> nat \<Rightarrow> nat \<Rightarrow> nat
     \<Rightarrow> uint8x16_t \<times> uint8x16_t \<Rightarrow> (nat \<times> nat \<times> nat \<times> uint8x16_t \<times> uint8x16_t) option" where
  "seqidentity_blocks aarch64 indet n datai dataj skipres k dst hit acc =
     (if int_of_size_t (k + NLANES_8 * UCHAR_MAX) < int n then
        (if k + NLANES_8 * UCHAR_MAX \<le> length datai \<and> k + NLANES_8 * UCHAR_MAX \<le> length dataj
            \<and> k + NLANES_8 * UCHAR_MAX \<le> length skipres
         then
           (case seqidentity_unrolled indet datai dataj skipres 0 k acc of
              (k', dst_acc, hit_acc) \<Rightarrow>
                seqidentity_blocks aarch64 indet n datai dataj skipres k'
                  (dst + unat (vhaddq_u8 aarch64 dst_acc))
                  (hit + unat (vhaddq_u8 aarch64 hit_acc))
                  (vdupq_n_u8 0, vdupq_n_u8 0))
         else None)
      else Some (k, dst, hit, acc))"
  by pat_completeness auto
termination
proof (relation "measure (\<lambda>(aarch64, indet, n, datai, dataj, skipres, k, dst, hit, acc).
    Suc (length datai) - k)")
  show "wf (measure (\<lambda>(aarch64, indet, n, datai, dataj, skipres, k, dst, hit, acc).
    Suc (length datai) - k))"
    by simp
next
  fix aarch64 :: bool and indet :: u8 and n :: nat and datai dataj skipres :: "u8 list"
    and k dst hit :: nat and acc x :: "uint8x16_t \<times> uint8x16_t" and k' :: nat
    and y dst_acc hit_acc :: uint8x16_t
  assume b: "k + NLANES_8 * UCHAR_MAX \<le> length datai \<and> k + NLANES_8 * UCHAR_MAX \<le> length dataj
      \<and> k + NLANES_8 * UCHAR_MAX \<le> length skipres"
    and r: "(k', x) = seqidentity_unrolled indet datai dataj skipres 0 k acc"
  have "k' = k + NLANES_8 * UCHAR_MAX"
    using seqidentity_unrolled_index[of indet datai dataj skipres 0 k acc] r [symmetric] by simp
  with b show "((aarch64, indet, n, datai, dataj, skipres, k',
                 dst + unat (vhaddq_u8 aarch64 dst_acc), hit + unat (vhaddq_u8 aarch64 hit_acc),
                 vdupq_n_u8 0, vdupq_n_u8 0),
                aarch64, indet, n, datai, dataj, skipres, k, dst, hit, acc)
               \<in> measure (\<lambda>(aarch64, indet, n, datai, dataj, skipres, k, dst, hit, acc).
                    Suc (length datai) - k)"
    by (simp add: NLANES_8_def UCHAR_MAX_def, arith)
qed

declare seqidentity_blocks.simps [simp del]

function seqidentity_vectors ::
  "u8 \<Rightarrow> nat \<Rightarrow> u8 list \<Rightarrow> u8 list \<Rightarrow> u8 list \<Rightarrow> nat \<Rightarrow> uint8x16_t \<times> uint8x16_t
     \<Rightarrow> (nat \<times> uint8x16_t \<times> uint8x16_t) option" where
  "seqidentity_vectors indet n datai dataj skipres k acc =
     (if int_of_size_t (k + NLANES_8) < int n then
        (if k + NLANES_8 \<le> length datai \<and> k + NLANES_8 \<le> length dataj
            \<and> k + NLANES_8 \<le> length skipres
         then seqidentity_vectors indet n datai dataj skipres (k + NLANES_8)
                (seqidentity_step indet (vld1q_u8 datai k) (vld1q_u8 dataj k)
                   (vld1q_u8 skipres k) acc)
         else None)
      else Some (k, acc))"
  by pat_completeness auto
termination
  by (relation "measure (\<lambda>(indet, n, datai, dataj, skipres, k, acc). Suc (length datai) - k)")
     (auto simp: NLANES_8_def)

declare seqidentity_vectors.simps [simp del]

function seqidentity_tail ::
  "u8 \<Rightarrow> nat \<Rightarrow> u8 list \<Rightarrow> u8 list \<Rightarrow> u8 list \<Rightarrow> nat \<Rightarrow> nat \<Rightarrow> nat \<Rightarrow> (nat \<times> nat) option" where
  "seqidentity_tail indet n datai dataj skipres k dst hit =
     (if k < n then
        (if k < length datai \<and> k < length dataj \<and> k < length skipres then
           (let gapi = (datai ! k = indet \<or> datai ! k = chr_gap);
                gapj = (dataj ! k = indet \<or> dataj ! k = chr_gap)
            in seqidentity_tail indet n datai dataj skipres (k + 1)
                 (dst + (if \<not> (gapi \<and> gapj) \<and> \<not> (skipres ! k \<noteq> 0) then 1 else 0))
                 (hit + (if \<not> (gapi \<and> gapj) \<and> \<not> (skipres ! k \<noteq> 0) \<and> datai ! k = dataj ! k
                         then 1 else 0)))
         else None)
      else Some (dst, hit))"
  by pat_completeness auto
termination
  by (relation "measure (\<lambda>(indet, n, datai, dataj, skipres, k, dst, hit). n - k)") auto

declare seqidentity_tail.simps [simp del]

text \<open>The scan of one pair: \<open>(dst, hit)\<close> after the three loops.\<close>

definition seqidentity_counts ::
  "bool \<Rightarrow> u8 \<Rightarrow> nat \<Rightarrow> u8 list \<Rightarrow> u8 list \<Rightarrow> u8 list \<Rightarrow> (nat \<times> nat) option" where
  "seqidentity_counts aarch64 indet n datai dataj skipres =
     (case seqidentity_blocks aarch64 indet n datai dataj skipres 0 0 0
             (vdupq_n_u8 0, vdupq_n_u8 0) of
        None \<Rightarrow> None
      | Some (k, dst, hit, acc) \<Rightarrow>
          (case seqidentity_vectors indet n datai dataj skipres k acc of
             None \<Rightarrow> None
           | Some (k', dst_acc, hit_acc) \<Rightarrow>
               seqidentity_tail indet n datai dataj skipres k'
                 (dst + unat (vhaddq_u8 aarch64 dst_acc))
                 (hit + unat (vhaddq_u8 aarch64 hit_acc))))"

text \<open>
  What is stored for a pair and what is reported: \<open>0\<close> and a report that names the two
  sequences when \<open>dst\<close> is \<open>0\<close>, \<open>(float) hit / dst\<close> and no report otherwise.
\<close>

definition seqidentity_value :: "alignment \<Rightarrow> nat \<Rightarrow> nat \<Rightarrow> nat \<times> nat \<Rightarrow> cfloat \<times> report list" where
  "seqidentity_value al i j c = (case c of (dst, hit) \<Rightarrow>
     (if dst = 0 then (Fin 0, [(NoResidueSequences, [seqsName al ! i, seqsName al ! j])])
      else (fdiv (float_of_nat hit) (float_of_nat dst), [])))"

text \<open>The first loop: a row for every kept sequence, with \<open>identities[i][i] = 0\<close>.\<close>

function seqidentity_alloc :: "alignment \<Rightarrow> nat \<Rightarrow> matrix \<Rightarrow> matrix" where
  "seqidentity_alloc al i m =
     (if i < originalNumberOfSequences al then
        (if saveSequences al ! i = - 1 then seqidentity_alloc al (i + 1) m
         else seqidentity_alloc al (i + 1) (m(i := (m i)(i := Fin 0))))
      else m)"
  by pat_completeness auto
termination
  by (relation "measure (\<lambda>(al, i, m). originalNumberOfSequences al - i)") auto

declare seqidentity_alloc.simps [simp del]

text \<open>
  The loop over \<open>j\<close> for one kept \<open>i\<close> and the loop over \<open>i\<close>; the state is the matrix
  and the reports made so far.
\<close>

function seqidentity_row ::
  "bool \<Rightarrow> cleaner \<Rightarrow> nat \<Rightarrow> nat \<Rightarrow> matrix \<times> report list \<Rightarrow> (matrix \<times> report list) option" where
  "seqidentity_row aarch64 c i j st =
     (if j < originalNumberOfSequences (calig c) then
        (if saveSequences (calig c) ! j = - 1 then seqidentity_row aarch64 c i (j + 1) st
         else
           (case seqidentity_counts aarch64 (indet_symbol (calig c))
                   (originalNumberOfResidues (calig c))
                   (data (sequences (calig c) ! i)) (data (sequences (calig c) ! j))
                   (skipResidues c) of
              None \<Rightarrow> None
            | Some cnt \<Rightarrow>
                (case st of (m, reports) \<Rightarrow>
                  (case seqidentity_value (calig c) i j cnt of (v, rep) \<Rightarrow>
                    (let m1 = m(i := (m i)(j := v));
                         m2 = m1(j := (m1 j)(i := m1 i j))
                     in seqidentity_row aarch64 c i (j + 1) (m2, reports @ rep))))))
      else Some st)"
  by pat_completeness auto
termination
  by (relation "measure (\<lambda>(aarch64, c, i, j, st). originalNumberOfSequences (calig c) - j)") auto

declare seqidentity_row.simps [simp del]

function seqidentity_rows ::
  "bool \<Rightarrow> cleaner \<Rightarrow> nat \<Rightarrow> matrix \<times> report list \<Rightarrow> (matrix \<times> report list) option" where
  "seqidentity_rows aarch64 c i st =
     (if i < originalNumberOfSequences (calig c) then
        (if saveSequences (calig c) ! i = - 1 then seqidentity_rows aarch64 c (i + 1) st
         else
           (case seqidentity_row aarch64 c i (i + 1) st of
              None \<Rightarrow> None
            | Some st' \<Rightarrow> seqidentity_rows aarch64 c (i + 1) st'))
      else Some st)"
  by pat_completeness auto
termination
  by (relation "measure (\<lambda>(aarch64, c, i, st). originalNumberOfSequences (calig c) - i)") auto

declare seqidentity_rows.simps [simp del]

text \<open>
  \<open>calculateSeqIdentity\<close>: the object with \<open>alig->identities\<close> filled, and the reports.
  \<open>None\<close> is a read out of bounds.
\<close>

definition calculateSeqIdentity ::
  "bool \<Rightarrow> matrix \<Rightarrow> cleaner \<Rightarrow> (cleaner \<times> report list) option" where
  "calculateSeqIdentity aarch64 fresh c =
     (case seqidentity_rows aarch64 c 0 (seqidentity_alloc (calig c) 0 fresh, []) of
        None \<Rightarrow> None
      | Some (m, reports) \<Rightarrow> Some (c\<lparr>calig := (calig c)\<lparr>identities := m\<rparr>\<rparr>, reports))"


section \<open>The scalar reference\<close>

text \<open>
  The naive computation that the specification compares the vector code with: one
  position at a time from the first to the last, with the tests of the specification.
  A position contributes to \<open>length\<close> if at least one of the two characters is not a
  gap or indeterminate, and to \<open>sum\<close> only if both are not and they are equal.
\<close>

definition scalar_identity_step :: "u8 \<Rightarrow> u8 list \<Rightarrow> u8 list \<Rightarrow> nat \<Rightarrow> nat \<times> nat \<Rightarrow> nat \<times> nat" where
  "scalar_identity_step indet si sj k c = (case c of (csum, clen) \<Rightarrow>
     (let gapi = (si ! k = chr_gap \<or> si ! k = indet);
          gapj = (sj ! k = chr_gap \<or> sj ! k = indet)
      in (if \<not> gapi \<and> \<not> gapj \<and> si ! k = sj ! k then csum + 1 else csum,
          if \<not> gapi \<or> \<not> gapj then clen + 1 else clen)))"

definition scalar_identity_counts :: "u8 \<Rightarrow> nat \<Rightarrow> u8 list \<Rightarrow> u8 list \<Rightarrow> nat \<times> nat" where
  "scalar_identity_counts indet n si sj = fold (scalar_identity_step indet si sj) [0..<n] (0, 0)"

text \<open>
  \<open>dst\<close> counts the positions that are not masked and where not both residues are a gap
  or indeterminate; \<open>hit\<close> counts those of them where the residues are equal.
\<close>

definition scalar_seqidentity_step ::
  "u8 \<Rightarrow> u8 list \<Rightarrow> u8 list \<Rightarrow> u8 list \<Rightarrow> nat \<Rightarrow> nat \<times> nat \<Rightarrow> nat \<times> nat" where
  "scalar_seqidentity_step indet si sj skipres k c = (case c of (dst, hit) \<Rightarrow>
     (let gapi = (si ! k = chr_gap \<or> si ! k = indet);
          gapj = (sj ! k = chr_gap \<or> sj ! k = indet);
          counted = (skipres ! k = 0 \<and> \<not> (gapi \<and> gapj))
      in (if counted then dst + 1 else dst,
          if counted \<and> si ! k = sj ! k then hit + 1 else hit)))"

definition scalar_seqidentity_counts ::
  "u8 \<Rightarrow> nat \<Rightarrow> u8 list \<Rightarrow> u8 list \<Rightarrow> u8 list \<Rightarrow> nat \<times> nat" where
  "scalar_seqidentity_counts indet n si sj skipres =
     fold (scalar_seqidentity_step indet si sj skipres) [0..<n] (0, 0)"

text \<open>
  A well-formed alignment: as many sequences, names and entries of \<open>saveSequences\<close> as
  \<open>originalNumberOfSequences\<close> says, every sequence of \<open>originalNumberOfResidues\<close>
  residues, as many entries of \<open>saveResidues\<close>, and a residue count for which the
  \<open>int\<close> arithmetic of the loop tests is exact.
\<close>

definition alignment_ok :: "alignment \<Rightarrow> bool" where
  "alignment_ok al =
     (length (sequences al) = originalNumberOfSequences al
      \<and> length (seqsName al) = originalNumberOfSequences al
      \<and> length (saveSequences al) = originalNumberOfSequences al
      \<and> list_all (\<lambda>s. length s = originalNumberOfResidues al) (sequences al)
      \<and> length (saveResidues al) = originalNumberOfResidues al
      \<and> originalNumberOfResidues al + 4080 < 2 ^ 31)"

text \<open>
  The value of a pair of sequences by the scalar reference: the distance that
  \<open>calculateMatrixIdentity\<close> stores, and the identity that \<open>calculateSeqIdentity\<close> stores.
\<close>

definition reference_distance :: "alignment \<Rightarrow> nat \<Rightarrow> nat \<Rightarrow> cfloat" where
  "reference_distance al i j =
     identity_distance (scalar_identity_counts (indet_symbol al) (originalNumberOfResidues al)
        (sequences al ! i) (sequences al ! j))"

definition reference_identity :: "cleaner \<Rightarrow> nat \<Rightarrow> nat \<Rightarrow> cfloat" where
  "reference_identity c i j =
     fst (seqidentity_value (calig c) i j
        (scalar_seqidentity_counts (indet_symbol (calig c)) (originalNumberOfResidues (calig c))
           (sequences (calig c) ! i) (sequences (calig c) ! j) (skipResidues c)))"

text \<open>A sequence is kept when its entry of \<open>saveSequences\<close> is not \<open>-1\<close>.\<close>

definition kept :: "alignment \<Rightarrow> nat \<Rightarrow> bool" where
  "kept al i = (saveSequences al ! i \<noteq> - 1)"

text \<open>
  A well-formed \<open>NEONCleaner\<close>: its alignment is well-formed and its skip index is as
  the constructor builds it, one byte \<open>0\<close> or \<open>0xFF\<close> for every residue.
\<close>

definition cleaner_ok :: "cleaner \<Rightarrow> bool" where
  "cleaner_ok c =
     (alignment_ok (calig c)
      \<and> length (skipResidues c) = originalNumberOfResidues (calig c)
      \<and> list_all (\<lambda>x. x = 0 \<or> x = 255) (skipResidues c))"

text \<open>
  Column \<open>i\<close> as \<open>calculateVectors\<close> reads it: whether the residue of sequence \<open>j\<close> is a
  gap or indeterminate, its class in the similarity matrix, and the two column buffers
  that hold this for every sequence.
\<close>

definition column_gapped :: "alignment \<Rightarrow> nat \<Rightarrow> nat \<Rightarrow> bool" where
  "column_gapped al i j =
     (toUpper (sequences al ! j ! i) = indet_symbol al \<or> toUpper (sequences al ! j ! i) = chr_gap)"

definition column_class :: "alignment \<Rightarrow> similarityMatrix \<Rightarrow> nat \<Rightarrow> nat \<Rightarrow> int" where
  "column_class al sm i j = vhash sm ! unat (toUpper (sequences al ! j ! i) - of_char CHR ''A'')"

definition column_gaps :: "alignment \<Rightarrow> nat \<Rightarrow> int list" where
  "column_gaps al i =
     map (\<lambda>j. if column_gapped al i j then 1 else 0) [0..<originalNumberOfSequences al]"

definition column_classes :: "alignment \<Rightarrow> similarityMatrix \<Rightarrow> nat \<Rightarrow> int list" where
  "column_classes al sm i =
     map (\<lambda>j. if column_gapped al i j then 0 else column_class al sm i j)
         [0..<originalNumberOfSequences al]"

text \<open>
  \<open>num\<close> and \<open>den\<close> of column \<open>i\<close>: the sums over the pairs \<open>j < k\<close> of residues that are
  not gaps, with the identity matrix \<open>m\<close>.
\<close>

definition column_sums :: "alignment \<Rightarrow> similarityMatrix \<Rightarrow> matrix \<Rightarrow> nat \<Rightarrow> cfloat \<times> cfloat" where
  "column_sums al sm m i =
     pairs_outer (originalNumberOfSequences al) sm m (column_classes al sm i) (column_gaps al i)
       0 (Fin 0, Fin 0)"

text \<open>Whether \<open>cutByGap\<close> sets column \<open>i\<close> to zero, as the code tests it.\<close>

definition column_cut :: "bool \<Rightarrow> alignment \<Rightarrow> nat \<Rightarrow> bool" where
  "column_cut cutByGap al i =
     (cutByGap \<and> fge (float_of_int (gapsWindow al ! i)) (gapThreshold al))"

text \<open>The identity matrix that \<open>calculateVectors\<close> works with: the memoized one, or the
  one it has \<open>calculateMatrixIdentity\<close> build.\<close>

definition identity_matrix_for :: "bool \<Rightarrow> matrix \<Rightarrow> similarity \<Rightarrow> matrix option" where
  "identity_matrix_for aarch64 fresh st =
     (case matrixIdentity st of
        Some m \<Rightarrow> Some m
      | None \<Rightarrow> (case calculateMatrixIdentity aarch64 fresh st of
                   None \<Rightarrow> None
                 | Some st1 \<Rightarrow> matrixIdentity st1))"

text \<open>The score of column \<open>i\<close>: zero when \<open>cutByGap\<close> cuts the column, the score of its
  sums otherwise.\<close>

definition column_value ::
  "bool \<Rightarrow> alignment \<Rightarrow> similarityMatrix \<Rightarrow> matrix \<Rightarrow> nat \<Rightarrow> cfloat" where
  "column_value cutByGap al sm m i =
     (if column_cut cutByGap al i then Fin 0 else column_MDK (column_sums al sm m i))"


section \<open>Definitions used in the statements and proofs\<close>

text \<open>Pairwise sums of a list of numbers, as \<open>vpaddl\<close> computes them on lanes.\<close>

fun pair_sums :: "nat list \<Rightarrow> nat list" where
  "pair_sums (x # y # r) = (x + y) # pair_sums r"
| "pair_sums _ = []"

text \<open>The sum of the lanes of a register, as a number.\<close>

definition lane_sum :: "u8 list \<Rightarrow> nat" where
  "lane_sum acc = sum_list (map unat acc)"

text \<open>
  The two tests of one position of a pair of sequences: the position counts for \<open>sum\<close>
  when both residues are neither a gap nor indeterminate and they are equal, and for
  \<open>length\<close> when at least one of them is neither a gap nor indeterminate.
\<close>

definition match_pos :: "u8 \<Rightarrow> u8 \<Rightarrow> u8 \<Rightarrow> bool" where
  "match_pos indet a b =
     (\<not> (a = chr_gap \<or> a = indet) \<and> \<not> (b = chr_gap \<or> b = indet) \<and> a = b)"

definition length_pos :: "u8 \<Rightarrow> u8 \<Rightarrow> u8 \<Rightarrow> bool" where
  "length_pos indet a b = (\<not> (a = chr_gap \<or> a = indet) \<or> \<not> (b = chr_gap \<or> b = indet))"

text \<open>The number of positions \<open>p\<close> with \<open>k \<le> p < k + m\<close> that satisfy \<open>P\<close>.\<close>

definition count_range :: "(nat \<Rightarrow> bool) \<Rightarrow> nat \<Rightarrow> nat \<Rightarrow> nat" where
  "count_range P k m = sum_list (map (\<lambda>p. of_bool (P p)) [k..<k + m])"

text \<open>
  The invariant of a pair of lane counters: sixteen lanes each, no lane above \<open>t\<close>.
\<close>

definition lanes_ok :: "nat \<Rightarrow> uint8x16_t \<times> uint8x16_t \<Rightarrow> bool" where
  "lanes_ok t acc = (length (fst acc) = 16 \<and> length (snd acc) = 16
      \<and> (\<forall>x\<in>set (fst acc). unat x \<le> t) \<and> (\<forall>x\<in>set (snd acc). unat x \<le> t))"

text \<open>
  The two tests of one position in \<open>calculateSeqIdentity\<close>, with the position's byte of
  \<open>skipResidues\<close>: the position counts for \<open>dst\<close> when it is not skipped and the residues
  are not both a gap or indeterminate, and for \<open>hit\<close> when moreover they are equal.
\<close>

definition dst_pos :: "u8 \<Rightarrow> u8 \<Rightarrow> u8 \<Rightarrow> u8 \<Rightarrow> bool" where
  "dst_pos indet a b s =
     (\<not> ((a = indet \<or> a = chr_gap) \<and> (b = indet \<or> b = chr_gap)) \<and> s = 0)"

definition hit_pos :: "u8 \<Rightarrow> u8 \<Rightarrow> u8 \<Rightarrow> u8 \<Rightarrow> bool" where
  "hit_pos indet a b s = (dst_pos indet a b s \<and> a = b)"

text \<open>What the scan of a pair needs: the data in bounds, a residue count for which the
  \<open>int\<close> arithmetic of the loop tests is exact, and a skip index of bytes \<open>0\<close> and
  \<open>0xFF\<close>.\<close>

definition masked_ok :: "nat \<Rightarrow> u8 list \<Rightarrow> u8 list \<Rightarrow> u8 list \<Rightarrow> bool" where
  "masked_ok n di dj sk =
     (n \<le> length di \<and> n \<le> length dj \<and> n \<le> length sk \<and> n + 4080 < 2 ^ 31
      \<and> (\<forall>x\<in>set sk. x = 0 \<or> x = 255))"


section \<open>Example inputs\<close>

text \<open>
  Three nucleotide sequences of twenty residues, so that a scan takes one vector step
  and four scalar steps; the fourth residue is marked as removed in \<open>saveResidues\<close>.
\<close>

definition example_alignment :: alignment where
  "example_alignment =
     \<lparr>originalNumberOfSequences = 3, originalNumberOfResidues = 20, numberOfResidues = 20,
      sequences = [map of_char ''ACGTACGTACGTACGTACGT'',
                   map of_char ''ACGTACNTAC-TACGTACGA'',
                   map of_char ''-CGTACGTACGTACGTAC-T''],
      seqsName = [''seq0'', ''seq1'', ''seq2''],
      isAA = False,
      saveSequences = [0, 1, 2],
      saveResidues = [0, 1, 2, - 1, 4, 5, 6, 7, 8, 9, 10, 11, 12, 13, 14, 15, 16, 17, 18, 19],
      gapsWindow = [1, 0, 0, 0, 0, 0, 1, 0, 0, 0, 1, 0, 0, 0, 0, 0, 0, 0, 1, 0],
      identities = (\<lambda>i j. NaN)\<rparr>"

definition example_similarity :: similarity where
  "example_similarity =
     \<lparr>alig = example_alignment, simMatrix = None, matrixIdentity = None, MDK = replicate 20 NaN\<rparr>"

definition example_cleaner :: cleaner where
  "example_cleaner = NEONCleaner example_alignment (replicate 20 0) (replicate 20 0)"

text \<open>
  A similarity matrix for nucleotides: \<open>A\<close>, \<open>C\<close>, \<open>G\<close> and \<open>T\<close> are the classes 0 to 3,
  no other letter is defined; the distance of two different classes is 1.
\<close>

definition example_simMatrix :: similarityMatrix where
  "example_simMatrix =
     \<lparr>vhash = [0, - 1, 1, - 1, - 1, - 1, 2, - 1, - 1, - 1, - 1, - 1, - 1,
               - 1, - 1, - 1, - 1, - 1, - 1, 3, - 1, - 1, - 1, - 1, - 1, - 1],
      distMat = [[Fin 0, Fin 1, Fin 1, Fin 1], [Fin 1, Fin 0, Fin 1, Fin 1],
                 [Fin 1, Fin 1, Fin 0, Fin 1], [Fin 1, Fin 1, Fin 1, Fin 0]]\<rparr>"

text \<open>
  Two sequences \<open>AC\<close> and \<open>AG\<close>: they differ in one of two positions, so their distance
  is 1/2, and the second column has \<open>num = den = 1/2\<close>.
\<close>

definition example2_alignment :: alignment where
  "example2_alignment =
     \<lparr>originalNumberOfSequences = 2, originalNumberOfResidues = 2, numberOfResidues = 2,
      sequences = [map of_char ''AC'', map of_char ''AG''],
      seqsName = [''seq0'', ''seq1''],
      isAA = False,
      saveSequences = [0, 1],
      saveResidues = [0, 1],
      gapsWindow = [0, 0],
      identities = (\<lambda>i j. Fin 0)\<rparr>"

definition example2_similarity :: similarity where
  "example2_similarity =
     \<lparr>alig = example2_alignment, simMatrix = Some example_simMatrix, matrixIdentity = None,
      MDK = [Fin 0, Fin 0]\<rparr>"

text \<open>The same with \<open>A*\<close> as the second sequence: \<open>*\<close> is not a letter.\<close>

definition example3_alignment :: alignment where
  "example3_alignment = example2_alignment\<lparr>sequences := [map of_char ''AC'', map of_char ''A*'']\<rparr>"

definition example3_similarity :: similarity where
  "example3_similarity = example2_similarity\<lparr>alig := example3_alignment\<rparr>"

text \<open>The identity matrix of the sequences \<open>AC\<close> and \<open>AG\<close>, on rows that held zeros.\<close>

definition example2_matrix :: matrix where
  "example2_matrix = (\<lambda>a b. if a \<noteq> b \<and> a < 2 \<and> b < 2
       then reference_distance example2_alignment (min a b) (max a b) else Fin 0)"

definition example3_matrix :: matrix where
  "example3_matrix = (\<lambda>a b. if a \<noteq> b \<and> a < 2 \<and> b < 2
       then reference_distance example3_alignment (min a b) (max a b) else Fin 0)"


section \<open>The lane reduction\<close>

lemma unat_ucast_up:
  fixes x :: "'a::len word"
  assumes "LENGTH('a) \<le> LENGTH('b::len)"
  shows "unat (ucast x :: 'b word) = unat x"
proof -
  have "unat x < 2 ^ LENGTH('a)" by simp
  also have "(2::nat) ^ LENGTH('a) \<le> 2 ^ LENGTH('b)"
    using assms by (simp add: power_increasing)
  finally have "unat x < 2 ^ LENGTH('b)" .
  then show ?thesis
    by (simp add: unsigned_ucast_eq take_bit_nat_eq_self)
qed

lemma unat_ucast_add:
  fixes x y :: "'a::len word"
  assumes "LENGTH('a) < LENGTH('b::len)"
  shows "unat (ucast x + ucast y :: 'b word) = unat x + unat y"
proof -
  have x: "unat x < 2 ^ LENGTH('a)" and y: "unat y < 2 ^ LENGTH('a)" by simp_all
  have "(2::nat) ^ Suc (LENGTH('a)) \<le> 2 ^ LENGTH('b)"
    using assms by (intro power_increasing) simp_all
  then have "2 * (2::nat) ^ LENGTH('a) \<le> 2 ^ LENGTH('b)" by simp
  then have b: "unat x + unat y < 2 ^ LENGTH('b)" using x y by linarith
  have ux: "unat (ucast x :: 'b word) = unat x" and uy: "unat (ucast y :: 'b word) = unat y"
    using assms by (simp_all add: unat_ucast_up)
  show ?thesis using b ux uy by (metis unat_add_lem)
qed

lemma map_unat_vpaddl:
  fixes xs :: "'a::len word list"
  assumes "LENGTH('a) < LENGTH('b::len)"
  shows "map unat (vpaddl xs :: 'b word list) = pair_sums (map unat xs)"
  using assms by (induction xs rule: vpaddl.induct) (simp_all add: unat_ucast_add)

lemma sum_list_pair_sums: "even (length xs) \<Longrightarrow> sum_list (pair_sums xs) = sum_list xs"
  by (induction xs rule: pair_sums.induct) simp_all

lemma length_pair_sums: "length (pair_sums xs) = length xs div 2"
  by (induction xs rule: pair_sums.induct) simp_all

lemma nth_pair_sums:
  "i < length xs div 2 \<Longrightarrow> pair_sums xs ! i = xs ! (2 * i) + xs ! (2 * i + 1)"
proof (induction xs arbitrary: i rule: pair_sums.induct)
  case (1 x y r)
  then show ?case by (cases i) simp_all
qed simp_all

lemma unat_foldl_add:
  fixes z :: "'a::len word"
  assumes "unat z + sum_list (map unat xs) < 2 ^ LENGTH('a)"
  shows "unat (foldl (+) z xs) = unat z + sum_list (map unat xs)"
  using assms
proof (induction xs arbitrary: z)
  case Nil
  then show ?case by simp
next
  case (Cons x xs)
  from Cons.prems have "unat z + unat x < 2 ^ LENGTH('a)" by simp
  then have zx: "unat (z + x) = unat z + unat x" by (metis unat_add_lem)
  with Cons.prems have "unat (z + x) + sum_list (map unat xs) < 2 ^ LENGTH('a)" by simp
  from Cons.IH[OF this] zx show ?case by simp
qed

lemma sum_list_unat_u8_le: "sum_list (map unat (a :: u8 list)) \<le> 255 * length a"
proof (induction a)
  case Nil
  then show ?case by simp
next
  case (Cons x a)
  have "unat x < 2 ^ LENGTH(8)" by (rule unsigned_less)
  then have "unat x \<le> 255" by simp
  with Cons show ?case by simp
qed

lemma unat_vaddvq_u16_vpaddlq_u8:
  assumes "length a = 16"
  shows "unat (vaddvq_u16 (vpaddlq_u8 a)) = sum_list (map unat a)"
proof -
  have m: "map unat (vpaddlq_u8 a) = pair_sums (map unat a)"
    unfolding vpaddlq_u8_def by (rule map_unat_vpaddl) simp
  have s: "sum_list (pair_sums (map unat a)) = sum_list (map unat a)"
    using assms by (intro sum_list_pair_sums) simp
  have "sum_list (map unat a) \<le> 255 * 16" using sum_list_unat_u8_le[of a] assms by simp
  then have "unat (0 :: u16) + sum_list (map unat (vpaddlq_u8 a)) < 2 ^ LENGTH(16)"
    by (simp add: m s)
  from unat_foldl_add[OF this] show ?thesis by (simp add: vaddvq_u16_def m s)
qed

lemma unat_arm32_reduce:
  assumes "length a = 16"
  shows "unat (ucast (vgetq_lane_u64 (vpaddlq_u32 (vpaddlq_u16 (vpaddlq_u8 a))) 0
                + vgetq_lane_u64 (vpaddlq_u32 (vpaddlq_u16 (vpaddlq_u8 a))) 1) :: u32)
         = sum_list (map unat a)"
proof -
  let ?p = "vpaddlq_u32 (vpaddlq_u16 (vpaddlq_u8 a))"
  let ?q = "pair_sums (pair_sums (pair_sums (map unat a)))"
  have m8: "map unat (vpaddlq_u8 a) = pair_sums (map unat a)"
    unfolding vpaddlq_u8_def by (rule map_unat_vpaddl) simp
  have m16: "map unat (vpaddlq_u16 (vpaddlq_u8 a)) = pair_sums (pair_sums (map unat a))"
    unfolding vpaddlq_u16_def by (simp add: map_unat_vpaddl m8)
  have m: "map unat ?p = ?q"
    unfolding vpaddlq_u32_def by (simp add: map_unat_vpaddl m16)
  have len: "length ?q = 2" using assms by (simp add: length_pair_sums)
  then have lenp: "length ?p = 2" using m by (metis length_map)
  have s: "sum_list ?q = sum_list (map unat a)"
    using assms by (simp add: sum_list_pair_sums length_pair_sums)
  obtain q0 q1 where q: "?q = [q0, q1]"
    using len by (auto simp: length_Suc_conv numeral_2_eq_2)
  have n0: "unat (?p ! 0) = q0" and n1: "unat (?p ! 1) = q1"
    using q lenp nth_map[of 0 ?p unat] nth_map[of 1 ?p unat] m by simp_all
  have bound: "q0 + q1 \<le> 255 * 16"
    using sum_list_unat_u8_le[of a] assms s q by simp
  then have "unat (?p ! 0) + unat (?p ! 1) < 2 ^ LENGTH(64)" using n0 n1 by simp
  then have "unat (?p ! 0 + ?p ! 1) = q0 + q1" using n0 n1 by (metis unat_add_lem)
  moreover have "q0 + q1 < 2 ^ LENGTH(32)" using bound by simp
  ultimately have "unat (ucast (?p ! 0 + ?p ! 1) :: u32) = q0 + q1"
    by (simp add: unsigned_ucast_eq take_bit_nat_eq_self)
  then show ?thesis using s q by (simp add: vgetq_lane_u64_def)
qed

lemma unat_vhaddq_u8:
  assumes "length a = 16"
  shows "unat (vhaddq_u8 aarch64 a) = lane_sum a"
proof (cases aarch64)
  case True
  then show ?thesis
    using unat_vaddvq_u16_vpaddlq_u8[OF assms]
    by (simp add: vhaddq_u8_def unat_ucast_up Let_def lane_sum_def)
next
  case False
  then show ?thesis
    using unat_arm32_reduce[OF assms] by (simp add: vhaddq_u8_def Let_def lane_sum_def)
qed

text \<open>
  C8: \<open>vhaddq_u8\<close> returns the exact sum of the sixteen 8-bit lanes, under either
  branch of the preprocessor; the lanes are first added in pairs into 16-bit lanes, each
  of which holds the exact sum of its pair, and the sum across the 16-bit lanes is exact
  too, so no addition wraps.
\<close>

theorem vhaddq_u8_exact:
  assumes "length a = 16"
  shows "unat (vhaddq_u8 aarch64 a) = sum_list (map unat a)
       \<and> (\<forall>i<8. unat (vpaddlq_u8 a ! i) = unat (a ! (2 * i)) + unat (a ! (2 * i + 1)))
       \<and> unat (vaddvq_u16 (vpaddlq_u8 a)) = sum_list (map unat a)"
proof (intro conjI allI impI)
  have w: "sum_list (map unat a) < 2 ^ LENGTH(16)"
    using sum_list_unat_u8_le[of a] assms by simp
  show "unat (vhaddq_u8 aarch64 a) = sum_list (map unat a)"
  proof (cases aarch64)
    case True
    then show ?thesis
      using unat_vaddvq_u16_vpaddlq_u8[OF assms]
      by (simp add: vhaddq_u8_def unat_ucast_up Let_def)
  next
    case False
    then show ?thesis
      using unat_arm32_reduce[OF assms] by (simp add: vhaddq_u8_def Let_def)
  qed
next
  fix i :: nat assume i: "i < 8"
  have m8: "map unat (vpaddlq_u8 a) = pair_sums (map unat a)"
    unfolding vpaddlq_u8_def by (rule map_unat_vpaddl) simp
  have l: "length (vpaddlq_u8 a) = 8"
    using arg_cong[OF m8, of length] assms by (simp add: length_pair_sums)
  have "unat (vpaddlq_u8 a ! i) = map unat (vpaddlq_u8 a) ! i" using i l by simp
  also have "\<dots> = pair_sums (map unat a) ! i" by (simp only: m8)
  also have "\<dots> = unat (a ! (2 * i)) + unat (a ! (2 * i + 1))"
    using i assms by (simp add: nth_pair_sums)
  finally show "unat (vpaddlq_u8 a ! i) = unat (a ! (2 * i)) + unat (a ! (2 * i + 1))" .
next
  show "unat (vaddvq_u16 (vpaddlq_u8 a)) = sum_list (map unat a)"
    by (rule unat_vaddvq_u16_vpaddlq_u8[OF assms])
qed

theorem vhaddq_u8_exact_witness:
  "length (replicate 16 (255 :: u8)) = 16
   \<and> unat (vhaddq_u8 True (replicate 16 255)) = 4080
   \<and> unat (vhaddq_u8 False (replicate 16 255)) = 4080"
  using vhaddq_u8_exact[of "replicate 16 255" True] vhaddq_u8_exact[of "replicate 16 255" False]
  by (simp add: sum_list_replicate)

section \<open>The scan of a pair of sequences\<close>

lemma int_of_size_t_small: "x < 2 ^ 31 \<Longrightarrow> int_of_size_t x = int x"
  unfolding int_of_size_t_def
proof -
  assume "x < 2 ^ 31"
  then have "int x < 2 ^ 31" by (metis of_nat_less_numeral_power_cancel_iff)
  moreover have "- (2 ^ 31) \<le> int x" by simp
  ultimately have "signed_take_bit 31 (int x) = int x"
    by (rule signed_take_bit_int_eq_self[rotated])
  then show "sint (word_of_nat x :: u32) = int x" by (simp add: signed_of_nat)
qed

lemma identity_step_lanes:
  assumes "length seqi = 16" "length seqj = 16" "length sa = 16" "length la = 16"
  shows "identity_step indet seqi seqj (sa, la) =
     (map2 (+) sa (map2 (\<lambda>a b. of_bool (match_pos indet a b)) seqi seqj),
      map2 (+) la (map2 (\<lambda>a b. of_bool (length_pos indet a b)) seqi seqj))"
  using assms
  by (auto simp: identity_step_def Let_def vdupq_n_u8_def vceqq_u8_def vorrq_u8_def vandq_u8_def
      vbicq_u8_def vaddq_u8_def match_pos_def length_pos_def intro!: nth_equalityI)

lemma lanes_add:
  assumes "length acc = length bs" "\<forall>x\<in>set acc. unat x \<le> t" "t < 255"
  shows "lane_sum (map2 (+) acc (map of_bool bs)) = lane_sum acc + sum_list (map of_bool bs)
       \<and> (\<forall>x\<in>set (map2 (+) acc (map of_bool bs)). unat x \<le> Suc t)"
  using assms
proof (induction acc bs rule: list_induct2)
  case Nil
  then show ?case by (simp add: lane_sum_def)
next
  case (Cons x xs b bs)
  have xt: "unat x \<le> t" using Cons.prems by simp
  have "unat x + unat (of_bool b :: u8) < 2 ^ LENGTH(8)"
    using xt \<open>t < 255\<close> by (cases b) simp_all
  then have "unat (x + of_bool b) = unat x + unat (of_bool b :: u8)" by (metis unat_add_lem)
  then have u: "unat (x + of_bool b) = unat x + of_bool b" by (cases b) simp_all
  then have "unat (x + of_bool b) \<le> Suc t" using xt by (cases b) simp_all
  with Cons u show ?case by (simp add: lane_sum_def)
qed


lemma count_range_add:
  "count_range P k (m1 + m2) = count_range P k m1 + count_range P (k + m1) m2"
proof -
  have "[k..<k + (m1 + m2)] = [k..<k + m1] @ [k + m1..<k + m1 + m2]"
    using upt_add_eq_append[of k "k + m1" m2] by (simp add: add.assoc)
  then show ?thesis by (simp add: count_range_def)
qed

lemma count_range_zero: "count_range P k 0 = 0"
  by (simp add: count_range_def)

lemma count_range_one: "count_range P k (Suc 0) = of_bool (P k)"
  by (simp add: count_range_def)

lemma count_range_Suc: "count_range P k (Suc m) = of_bool (P k) + count_range P (Suc k) m"
  using count_range_add[of P k "Suc 0" m] by (simp add: count_range_one)

lemma map2_take_drop:
  assumes "k + m \<le> length di" "k + m \<le> length dj"
  shows "map2 f (take m (drop k di)) (take m (drop k dj)) = map (\<lambda>p. f (di ! p) (dj ! p)) [k..<k + m]"
  using assms by (auto intro!: nth_equalityI simp: add.commute)

lemma identity_step_count:
  assumes ok: "lanes_ok t acc" and t: "t < 255"
    and b: "k + 16 \<le> length di" "k + 16 \<le> length dj"
  shows "lanes_ok (Suc t) (identity_step indet (vld1q_u8 di k) (vld1q_u8 dj k) acc)
    \<and> lane_sum (fst (identity_step indet (vld1q_u8 di k) (vld1q_u8 dj k) acc))
        = lane_sum (fst acc) + count_range (\<lambda>p. match_pos indet (di ! p) (dj ! p)) k 16
    \<and> lane_sum (snd (identity_step indet (vld1q_u8 di k) (vld1q_u8 dj k) acc))
        = lane_sum (snd acc) + count_range (\<lambda>p. length_pos indet (di ! p) (dj ! p)) k 16"
proof -
  obtain sa la where acc: "acc = (sa, la)" by (cases acc)
  let ?si = "vld1q_u8 di k" and ?sj = "vld1q_u8 dj k"
  have li: "length ?si = 16" and lj: "length ?sj = 16"
    using b by (simp_all add: vld1q_u8_def)
  have lsa: "length sa = 16" and lla: "length la = 16"
    and bsa: "\<forall>x\<in>set sa. unat x \<le> t" and bla: "\<forall>x\<in>set la. unat x \<le> t"
    using ok by (simp_all add: lanes_ok_def acc)
  let ?ms = "map2 (\<lambda>a b. match_pos indet a b) ?si ?sj"
  let ?ls = "map2 (\<lambda>a b. length_pos indet a b) ?si ?sj"
  have st: "identity_step indet ?si ?sj acc =
      (map2 (+) sa (map of_bool ?ms), map2 (+) la (map of_bool ?ls))"
    unfolding acc identity_step_lanes[OF li lj lsa lla] by (simp add: split_def comp_def)
  have lm: "length sa = length ?ms" and ll: "length la = length ?ls"
    using li lj lsa lla by simp_all
  have cm: "sum_list (map of_bool ?ms) = count_range (\<lambda>p. match_pos indet (di ! p) (dj ! p)) k 16"
    and cl: "sum_list (map of_bool ?ls) = count_range (\<lambda>p. length_pos indet (di ! p) (dj ! p)) k 16"
    using b by (simp_all add: count_range_def vld1q_u8_def map2_take_drop comp_def)
  let ?A = "map2 (+) sa (map of_bool ?ms)" and ?B = "map2 (+) la (map of_bool ?ls)"
  have A1: "lane_sum ?A = lane_sum sa + sum_list (map of_bool ?ms)"
    and A2: "\<forall>x\<in>set ?A. unat x \<le> Suc t"
    using lanes_add[OF lm bsa t] by blast+
  have B1: "lane_sum ?B = lane_sum la + sum_list (map of_bool ?ls)"
    and B2: "\<forall>x\<in>set ?B. unat x \<le> Suc t"
    using lanes_add[OF ll bla t] by blast+
  have lA: "length ?A = 16" and lB: "length ?B = 16"
    using li lj lsa lla by simp_all
  have "lanes_ok (Suc t) (?A, ?B)"
    unfolding lanes_ok_def fst_conv snd_conv using lA lB A2 B2 by blast
  moreover have "lane_sum (fst (?A, ?B)) = lane_sum (fst acc) + count_range (\<lambda>p. match_pos indet (di ! p) (dj ! p)) k 16"
    unfolding fst_conv acc A1 cm ..
  moreover have "lane_sum (snd (?A, ?B)) = lane_sum (snd acc) + count_range (\<lambda>p. length_pos indet (di ! p) (dj ! p)) k 16"
    unfolding snd_conv acc B1 cl ..
  ultimately show ?thesis unfolding st by blast
qed


lemma lanes_ok_mono: "lanes_ok t acc \<Longrightarrow> t \<le> t' \<Longrightarrow> lanes_ok t' acc"
  by (auto simp: lanes_ok_def intro: order_trans)

lemma lanes_ok_zero: "lanes_ok 0 (vdupq_n_u8 0, vdupq_n_u8 0)"
  by (simp add: lanes_ok_def vdupq_n_u8_def)

lemma lane_sum_zero: "lane_sum (vdupq_n_u8 0) = 0"
  by (simp add: lane_sum_def vdupq_n_u8_def)

lemma identity_unrolled_count:
  assumes "lanes_ok l acc" "l \<le> 255"
    and "k + 16 * (255 - l) \<le> length di" "k + 16 * (255 - l) \<le> length dj"
  shows "\<exists>acc'. identity_unrolled indet di dj l k acc = (k + 16 * (255 - l), acc')
      \<and> lanes_ok 255 acc'
      \<and> lane_sum (fst acc') = lane_sum (fst acc)
            + count_range (\<lambda>p. match_pos indet (di ! p) (dj ! p)) k (16 * (255 - l))
      \<and> lane_sum (snd acc') = lane_sum (snd acc)
            + count_range (\<lambda>p. length_pos indet (di ! p) (dj ! p)) k (16 * (255 - l))"
  using assms
proof (induction indet di dj l k acc rule: identity_unrolled.induct)
  case (1 indet di dj l k acc)
  show ?case
  proof (cases "l < 255")
    case False
    with "1.prems" have l: "l = 255" by simp
    have "identity_unrolled indet di dj l k acc = (k, acc)"
      by (subst identity_unrolled.simps) (simp add: l UCHAR_MAX_def)
    with "1.prems"(1) show ?thesis by (simp add: l count_range_zero)
  next
    case True
    let ?acc1 = "identity_step indet (vld1q_u8 di k) (vld1q_u8 dj k) acc"
    have r: "255 - l = Suc (255 - (l + 1))" using True by simp
    have b: "k + 16 \<le> length di" "k + 16 \<le> length dj"
      using "1.prems"(3,4) r by simp_all
    note st = identity_step_count[OF "1.prems"(1) True b, of indet]
    have ok1: "lanes_ok (l + 1) ?acc1" using st by simp
    have b1: "k + NLANES_8 + 16 * (255 - (l + 1)) \<le> length di"
      "k + NLANES_8 + 16 * (255 - (l + 1)) \<le> length dj"
      using "1.prems"(3,4) r by (simp_all add: NLANES_8_def)
    have lt: "l < UCHAR_MAX" using True by (simp add: UCHAR_MAX_def)
    have l1: "l + 1 \<le> 255" using True by simp
    from "1.IH"[OF lt ok1 l1 b1]
    obtain acc' where
      e: "identity_unrolled indet di dj (l + 1) (k + NLANES_8) ?acc1
            = (k + NLANES_8 + 16 * (255 - (l + 1)), acc')"
      and ok': "lanes_ok 255 acc'"
      and s1: "lane_sum (fst acc') = lane_sum (fst ?acc1)
            + count_range (\<lambda>p. match_pos indet (di ! p) (dj ! p)) (k + NLANES_8) (16 * (255 - (l + 1)))"
      and s2: "lane_sum (snd acc') = lane_sum (snd ?acc1)
            + count_range (\<lambda>p. length_pos indet (di ! p) (dj ! p)) (k + NLANES_8) (16 * (255 - (l + 1)))"
      by blast
    have u: "identity_unrolled indet di dj l k acc = (k + 16 * (255 - l), acc')"
      using e by (subst identity_unrolled.simps) (simp add: lt r NLANES_8_def)
    have m: "16 * (255 - l) = 16 + 16 * (255 - (l + 1))" using r by simp
    show ?thesis
      using u ok' s1 s2 st
      by (simp add: m count_range_add NLANES_8_def)
  qed
qed


lemma loop_test_exact:
  assumes "n + 4080 < 2 ^ 31" "k \<le> n" "d \<le> 4080"
  shows "(int_of_size_t (k + d) < int n) = (k + d < n)"
proof -
  have "k + d < 2 ^ 31" using assms by simp
  then have "int_of_size_t (k + d) = int (k + d)" by (rule int_of_size_t_small)
  then show ?thesis by (simp only: of_nat_less_iff)
qed

lemma identity_blocks_count:
  assumes "n \<le> length di" "n \<le> length dj" "n + 4080 < 2 ^ 31" "k \<le> n"
    and "acc = (vdupq_n_u8 0, vdupq_n_u8 0)"
  shows "\<exists>k'. identity_blocks aarch64 indet n di dj k csum clen acc
        = Some (k', csum + count_range (\<lambda>p. match_pos indet (di ! p) (dj ! p)) k (k' - k),
                clen + count_range (\<lambda>p. length_pos indet (di ! p) (dj ! p)) k (k' - k),
                vdupq_n_u8 0, vdupq_n_u8 0)
      \<and> k \<le> k' \<and> k' \<le> n \<and> n \<le> k' + 4080"
  using assms
proof (induction aarch64 indet n di dj k csum clen acc rule: identity_blocks.induct)
  case (1 aarch64 indet n di dj k csum clen acc)
  have acc: "acc = (vdupq_n_u8 0, vdupq_n_u8 0)" by (rule "1.prems"(5))
  let ?M = "\<lambda>p. match_pos indet (di ! p) (dj ! p)" and ?L = "\<lambda>p. length_pos indet (di ! p) (dj ! p)"
  let ?z = "(vdupq_n_u8 0, vdupq_n_u8 0)"
  have test: "(int_of_size_t (k + NLANES_8 * UCHAR_MAX) < int n) = (k + 4080 < n)"
    using loop_test_exact[OF "1.prems"(3,4), of 4080] by (simp add: NLANES_8_def UCHAR_MAX_def)
  show ?case
  proof (cases "k + 4080 < n")
    case False
    have "identity_blocks aarch64 indet n di dj k csum clen acc = Some (k, csum, clen, ?z)"
      by (subst identity_blocks.simps) (simp add: test False acc)
    with False "1.prems"(4) show ?thesis by (simp add: count_range_zero)
  next
    case True
    have b: "k + 16 * (255 - 0) \<le> length di" "k + 16 * (255 - 0) \<le> length dj"
      using True "1.prems"(1,2) by simp_all
    from identity_unrolled_count[OF lanes_ok_mono[OF lanes_ok_zero] _ b, of indet]
    obtain acc' where
      u: "identity_unrolled indet di dj 0 k ?z = (k + 4080, acc')"
      and ok': "lanes_ok 255 acc'"
      and s1: "lane_sum (fst acc') = count_range ?M k 4080"
      and s2: "lane_sum (snd acc') = count_range ?L k 4080"
      by (auto simp: lane_sum_zero)
    obtain sa la where acc': "acc' = (sa, la)" by (cases acc')
    have h1: "unat (vhaddq_u8 aarch64 sa) = count_range ?M k 4080"
      and h2: "unat (vhaddq_u8 aarch64 la) = count_range ?L k 4080"
      using ok' s1 s2 by (simp_all add: acc' lanes_ok_def unat_vhaddq_u8)
    have c1: "int_of_size_t (k + NLANES_8 * UCHAR_MAX) < int n" using test True by simp
    have c2: "k + NLANES_8 * UCHAR_MAX \<le> length di \<and> k + NLANES_8 * UCHAR_MAX \<le> length dj"
      using b by (simp add: NLANES_8_def UCHAR_MAX_def)
    have kn: "k + 4080 \<le> n" using True by simp
    note ih = "1.IH"[OF c1 c2 u[symmetric, unfolded acc', folded acc] refl "1.prems"(1,2,3) kn refl]
    from ih
    obtain k' where
      r: "identity_blocks aarch64 indet n di dj (k + 4080)
            (csum + unat (vhaddq_u8 aarch64 sa)) (clen + unat (vhaddq_u8 aarch64 la)) ?z
          = Some (k', csum + unat (vhaddq_u8 aarch64 sa) + count_range ?M (k + 4080) (k' - (k + 4080)),
                  clen + unat (vhaddq_u8 aarch64 la) + count_range ?L (k + 4080) (k' - (k + 4080)), ?z)"
      and k': "k + 4080 \<le> k'" "k' \<le> n" "n \<le> k' + 4080"
      by blast
    have e: "identity_blocks aarch64 indet n di dj k csum clen acc
          = identity_blocks aarch64 indet n di dj (k + 4080)
            (csum + unat (vhaddq_u8 aarch64 sa)) (clen + unat (vhaddq_u8 aarch64 la)) ?z"
      by (subst identity_blocks.simps) (simp add: c1 c2 u[folded acc] acc')
    have d: "k' - k = 4080 + (k' - (k + 4080))" using k' by simp
    have cr: "count_range P k (k' - k)
        = count_range P k 4080 + count_range P (k + 4080) (k' - (k + 4080))" for P
      by (subst d) (rule count_range_add)
    have kk: "k \<le> k'" using k' by simp
    show ?thesis
      using kk k'(2,3) r[unfolded h1 h2]
      by (intro exI[of _ k']) (simp add: e h1 h2 cr add.assoc)
  qed
qed

lemma identity_vectors_count:
  assumes "n \<le> length di" "n \<le> length dj" "n + 4080 < 2 ^ 31" "k \<le> n"
    and "lanes_ok t acc" "16 * t + (n - k) \<le> 4080"
  shows "\<exists>k' acc'. identity_vectors indet n di dj k acc = Some (k', acc')
      \<and> k \<le> k' \<and> k' \<le> n \<and> n \<le> k' + 16 \<and> lanes_ok 255 acc'
      \<and> lane_sum (fst acc') = lane_sum (fst acc)
            + count_range (\<lambda>p. match_pos indet (di ! p) (dj ! p)) k (k' - k)
      \<and> lane_sum (snd acc') = lane_sum (snd acc)
            + count_range (\<lambda>p. length_pos indet (di ! p) (dj ! p)) k (k' - k)"
  using assms
proof (induction indet n di dj k acc arbitrary: t rule: identity_vectors.induct)
  case (1 indet n di dj k acc)
  let ?M = "\<lambda>p. match_pos indet (di ! p) (dj ! p)" and ?L = "\<lambda>p. length_pos indet (di ! p) (dj ! p)"
  have test: "(int_of_size_t (k + NLANES_8) < int n) = (k + 16 < n)"
    using loop_test_exact[OF "1.prems"(3,4), of 16] by (simp add: NLANES_8_def)
  show ?case
  proof (cases "k + 16 < n")
    case False
    have "identity_vectors indet n di dj k acc = Some (k, acc)"
      by (subst identity_vectors.simps) (simp add: test False)
    moreover have "lanes_ok 255 acc"
      using "1.prems"(5,6) by (auto intro: lanes_ok_mono)
    ultimately show ?thesis using False "1.prems"(4) by (simp add: count_range_zero)
  next
    case True
    let ?acc1 = "identity_step indet (vld1q_u8 di k) (vld1q_u8 dj k) acc"
    have t: "t < 255" using True "1.prems"(6) by simp
    have b: "k + 16 \<le> length di" "k + 16 \<le> length dj"
      using True "1.prems"(1,2) by simp_all
    note st = identity_step_count[OF "1.prems"(5) t b, of indet]
    have ok1: "lanes_ok (Suc t) ?acc1" using st by simp
    have c1: "int_of_size_t (k + NLANES_8) < int n" using test True by simp
    have c2: "k + NLANES_8 \<le> length di \<and> k + NLANES_8 \<le> length dj"
      using b by (simp add: NLANES_8_def)
    have kn: "k + NLANES_8 \<le> n" using True by (simp add: NLANES_8_def)
    have m: "16 * Suc t + (n - (k + NLANES_8)) \<le> 4080"
      using True "1.prems"(6) by (simp add: NLANES_8_def)
    from "1.IH"[OF c1 c2 "1.prems"(1,2,3) kn ok1 m]
    obtain k' acc' where
      r: "identity_vectors indet n di dj (k + NLANES_8) ?acc1 = Some (k', acc')"
      and k': "k + NLANES_8 \<le> k'" "k' \<le> n" "n \<le> k' + 16"
      and ok': "lanes_ok 255 acc'"
      and s1: "lane_sum (fst acc') = lane_sum (fst ?acc1) + count_range ?M (k + NLANES_8) (k' - (k + NLANES_8))"
      and s2: "lane_sum (snd acc') = lane_sum (snd ?acc1) + count_range ?L (k + NLANES_8) (k' - (k + NLANES_8))"
      by blast
    have e: "identity_vectors indet n di dj k acc = Some (k', acc')"
      using r by (subst identity_vectors.simps) (simp add: c1 c2)
    have d: "k' - k = 16 + (k' - (k + 16))" using k' by (simp add: NLANES_8_def)
    have cr: "count_range P k (k' - k)
        = count_range P k 16 + count_range P (k + 16) (k' - (k + 16))" for P
      by (subst d) (rule count_range_add)
    have kk: "k \<le> k'" using k' by (simp add: NLANES_8_def)
    show ?thesis
      using kk k'(2,3) ok' s1 s2 st e
      by (intro exI[of _ k'] exI[of _ acc']) (simp add: cr NLANES_8_def)
  qed
qed

lemma identity_tail_count:
  assumes "n \<le> length di" "n \<le> length dj" "k \<le> n"
  shows "identity_tail indet n di dj k csum clen
      = Some (csum + count_range (\<lambda>p. match_pos indet (di ! p) (dj ! p)) k (n - k),
              clen + count_range (\<lambda>p. length_pos indet (di ! p) (dj ! p)) k (n - k))"
  using assms
proof (induction indet n di dj k csum clen rule: identity_tail.induct)
  case (1 indet n di dj k csum clen)
  show ?case
  proof (cases "k < n")
    case False
    then show ?thesis
      by (subst identity_tail.simps) (simp add: count_range_zero)
  next
    case True
    have b: "k < length di \<and> k < length dj" using True "1.prems" by simp
    have d: "n - k = Suc (n - (k + 1))" using True by simp
    have cr: "count_range P k (n - k) = of_bool (P k) + count_range P (k + 1) (n - (k + 1))" for P
      by (subst d) (simp add: count_range_Suc)
    have kn: "k + 1 \<le> n" using True by simp
    note ih = "1.IH"[OF True b refl refl "1.prems"(1,2) kn]
    show ?thesis
      apply (subst identity_tail.simps)
      apply (simp only: True b if_True Let_def ih simp_thms)
      apply (simp only: cr)
      apply (simp add: match_pos_def length_pos_def)
      done
  qed
qed

section \<open>The masked scan of a pair of sequences\<close>

lemma step_count_generic:
  assumes ok: "lanes_ok t acc" and t: "t < 255"
    and l1: "length bs1 = 16" and l2: "length bs2 = 16"
  shows "lanes_ok (Suc t) (map2 (+) (fst acc) (map of_bool bs1), map2 (+) (snd acc) (map of_bool bs2))
     \<and> lane_sum (map2 (+) (fst acc) (map of_bool bs1)) = lane_sum (fst acc) + sum_list (map of_bool bs1)
     \<and> lane_sum (map2 (+) (snd acc) (map of_bool bs2)) = lane_sum (snd acc) + sum_list (map of_bool bs2)"
proof -
  let ?sa = "fst acc" and ?la = "snd acc"
  have lsa: "length ?sa = length bs1" and lla: "length ?la = length bs2"
    and bsa: "\<forall>x\<in>set ?sa. unat x \<le> t" and bla: "\<forall>x\<in>set ?la. unat x \<le> t"
    using ok l1 l2 by (simp_all add: lanes_ok_def)
  let ?A = "map2 (+) ?sa (map of_bool bs1)" and ?B = "map2 (+) ?la (map of_bool bs2)"
  have A1: "lane_sum ?A = lane_sum ?sa + sum_list (map of_bool bs1)"
    and A2: "\<forall>x\<in>set ?A. unat x \<le> Suc t"
    using lanes_add[OF lsa bsa t] by blast+
  have B1: "lane_sum ?B = lane_sum ?la + sum_list (map of_bool bs2)"
    and B2: "\<forall>x\<in>set ?B. unat x \<le> Suc t"
    using lanes_add[OF lla bla t] by blast+
  have lA: "length ?A = 16" and lB: "length ?B = 16"
    using lsa lla l1 l2 by simp_all
  have "lanes_ok (Suc t) (?A, ?B)"
    unfolding lanes_ok_def fst_conv snd_conv using lA lB A2 B2 by blast
  with A1 B1 show ?thesis by blast
qed

lemma sum_list_of_bool_upt: "sum_list (map of_bool (map P [k..<k + m])) = count_range P k m"
  by (simp add: count_range_def comp_def)

lemma seqidentity_step_lanes:
  assumes b: "k + 16 \<le> length di" "k + 16 \<le> length dj" "k + 16 \<le> length sk"
    and sk: "\<forall>x\<in>set sk. x = 0 \<or> x = 255"
    and l: "length da = 16" "length ha = 16"
  shows "seqidentity_step indet (vld1q_u8 di k) (vld1q_u8 dj k) (vld1q_u8 sk k) (da, ha) =
     (map2 (+) da (map of_bool (map (\<lambda>p. dst_pos indet (di ! p) (dj ! p) (sk ! p)) [k..<k + 16])),
      map2 (+) ha (map of_bool (map (\<lambda>p. hit_pos indet (di ! p) (dj ! p) (sk ! p)) [k..<k + 16])))"
proof -
  have s: "sk ! (k + i) = 0 \<or> sk ! (k + i) = 255" if "i < 16" for i
    using sk b(3) that by (simp add: nth_mem)
  have s': "sk ! (k + i) \<noteq> 0 \<Longrightarrow> sk ! (k + i) = 255" if "i < 16" for i
    using s[OF that] by blast
  show ?thesis
    using b l
    by (auto simp: seqidentity_step_def Let_def vdupq_n_u8_def vceqq_u8_def vorrq_u8_def vandq_u8_def
      vbicq_u8_def vaddq_u8_def vld1q_u8_def dst_pos_def hit_pos_def add.commute
      intro!: nth_equalityI dest!: s')
qed


lemma seqidentity_step_count:
  assumes ok: "lanes_ok t acc" and t: "t < 255"
    and b: "k + 16 \<le> length di" "k + 16 \<le> length dj" "k + 16 \<le> length sk"
    and sk: "\<forall>x\<in>set sk. x = 0 \<or> x = 255"
  shows "lanes_ok (Suc t) (seqidentity_step indet (vld1q_u8 di k) (vld1q_u8 dj k) (vld1q_u8 sk k) acc)
    \<and> lane_sum (fst (seqidentity_step indet (vld1q_u8 di k) (vld1q_u8 dj k) (vld1q_u8 sk k) acc))
        = lane_sum (fst acc) + count_range (\<lambda>p. dst_pos indet (di ! p) (dj ! p) (sk ! p)) k 16
    \<and> lane_sum (snd (seqidentity_step indet (vld1q_u8 di k) (vld1q_u8 dj k) (vld1q_u8 sk k) acc))
        = lane_sum (snd acc) + count_range (\<lambda>p. hit_pos indet (di ! p) (dj ! p) (sk ! p)) k 16"
proof -
  obtain da ha where acc: "acc = (da, ha)" by (cases acc)
  have l: "length da = 16" "length ha = 16" using ok by (simp_all add: lanes_ok_def acc)
  let ?b1 = "map (\<lambda>p. dst_pos indet (di ! p) (dj ! p) (sk ! p)) [k..<k + 16]"
  let ?b2 = "map (\<lambda>p. hit_pos indet (di ! p) (dj ! p) (sk ! p)) [k..<k + 16]"
  have g: "lanes_ok (Suc t) (map2 (+) (fst acc) (map of_bool ?b1), map2 (+) (snd acc) (map of_bool ?b2))
     \<and> lane_sum (map2 (+) (fst acc) (map of_bool ?b1)) = lane_sum (fst acc) + sum_list (map of_bool ?b1)
     \<and> lane_sum (map2 (+) (snd acc) (map of_bool ?b2)) = lane_sum (snd acc) + sum_list (map of_bool ?b2)"
    by (rule step_count_generic[OF ok t]) simp_all
  show ?thesis
    unfolding acc seqidentity_step_lanes[OF b sk l]
    using g unfolding acc fst_conv snd_conv sum_list_of_bool_upt by blast
qed

lemma seqidentity_unrolled_count:
  assumes "lanes_ok l acc" "l \<le> 255"
    and "k + 16 * (255 - l) \<le> length di" "k + 16 * (255 - l) \<le> length dj"
      "k + 16 * (255 - l) \<le> length sk"
    and "\<forall>x\<in>set sk. x = 0 \<or> x = 255"
  shows "\<exists>acc'. seqidentity_unrolled indet di dj sk l k acc = (k + 16 * (255 - l), acc')
      \<and> lanes_ok 255 acc'
      \<and> lane_sum (fst acc') = lane_sum (fst acc)
            + count_range (\<lambda>p. dst_pos indet (di ! p) (dj ! p) (sk ! p)) k (16 * (255 - l))
      \<and> lane_sum (snd acc') = lane_sum (snd acc)
            + count_range (\<lambda>p. hit_pos indet (di ! p) (dj ! p) (sk ! p)) k (16 * (255 - l))"
  using assms
proof (induction indet di dj sk l k acc rule: seqidentity_unrolled.induct)
  case (1 indet di dj sk l k acc)
  let ?D = "\<lambda>p. dst_pos indet (di ! p) (dj ! p) (sk ! p)"
  let ?H = "\<lambda>p. hit_pos indet (di ! p) (dj ! p) (sk ! p)"
  show ?case
  proof (cases "l < 255")
    case False
    with "1.prems" have l: "l = 255" by simp
    have "seqidentity_unrolled indet di dj sk l k acc = (k, acc)"
      by (subst seqidentity_unrolled.simps) (simp add: l UCHAR_MAX_def)
    with "1.prems"(1) show ?thesis by (simp add: l count_range_zero)
  next
    case True
    let ?acc1 = "seqidentity_step indet (vld1q_u8 di k) (vld1q_u8 dj k) (vld1q_u8 sk k) acc"
    have r: "255 - l = Suc (255 - (l + 1))" using True by simp
    have b: "k + 16 \<le> length di" "k + 16 \<le> length dj" "k + 16 \<le> length sk"
      using "1.prems"(3,4,5) r by simp_all
    note st = seqidentity_step_count[OF "1.prems"(1) True b "1.prems"(6), of indet]
    have ok1: "lanes_ok (l + 1) ?acc1" using st by simp
    have b1: "k + NLANES_8 + 16 * (255 - (l + 1)) \<le> length di"
      "k + NLANES_8 + 16 * (255 - (l + 1)) \<le> length dj"
      "k + NLANES_8 + 16 * (255 - (l + 1)) \<le> length sk"
      using "1.prems"(3,4,5) r by (simp_all add: NLANES_8_def)
    have lt: "l < UCHAR_MAX" using True by (simp add: UCHAR_MAX_def)
    have l1: "l + 1 \<le> 255" using True by simp
    from "1.IH"[OF lt ok1 l1 b1 "1.prems"(6)]
    obtain acc' where
      e: "seqidentity_unrolled indet di dj sk (l + 1) (k + NLANES_8) ?acc1
            = (k + NLANES_8 + 16 * (255 - (l + 1)), acc')"
      and ok': "lanes_ok 255 acc'"
      and s1: "lane_sum (fst acc') = lane_sum (fst ?acc1)
            + count_range ?D (k + NLANES_8) (16 * (255 - (l + 1)))"
      and s2: "lane_sum (snd acc') = lane_sum (snd ?acc1)
            + count_range ?H (k + NLANES_8) (16 * (255 - (l + 1)))"
      by blast
    have u: "seqidentity_unrolled indet di dj sk l k acc = (k + 16 * (255 - l), acc')"
      using e by (subst seqidentity_unrolled.simps) (simp add: lt r NLANES_8_def)
    have m: "16 * (255 - l) = 16 + 16 * (255 - (l + 1))" using r by simp
    have cr: "count_range P k (16 * (255 - l))
        = count_range P k 16 + count_range P (k + 16) (16 * (255 - (l + 1)))" for P
      by (subst m) (rule count_range_add)
    show ?thesis
      using u ok' s1 s2 st
      by (simp add: cr NLANES_8_def)
  qed
qed

lemma seqidentity_blocks_count:
  assumes "masked_ok n di dj sk" "k \<le> n" "acc = (vdupq_n_u8 0, vdupq_n_u8 0)"
  shows "\<exists>k'. seqidentity_blocks aarch64 indet n di dj sk k dst hit acc
        = Some (k', dst + count_range (\<lambda>p. dst_pos indet (di ! p) (dj ! p) (sk ! p)) k (k' - k),
                hit + count_range (\<lambda>p. hit_pos indet (di ! p) (dj ! p) (sk ! p)) k (k' - k),
                vdupq_n_u8 0, vdupq_n_u8 0)
      \<and> k \<le> k' \<and> k' \<le> n \<and> n \<le> k' + 4080"
  using assms
proof (induction aarch64 indet n di dj sk k dst hit acc rule: seqidentity_blocks.induct)
  case (1 aarch64 indet n di dj sk k dst hit acc)
  have acc: "acc = (vdupq_n_u8 0, vdupq_n_u8 0)" by (rule "1.prems"(3))
  have wf: "n \<le> length di" "n \<le> length dj" "n \<le> length sk" "n + 4080 < 2 ^ 31"
    "\<forall>x\<in>set sk. x = 0 \<or> x = 255"
    using "1.prems"(1) by (simp_all add: masked_ok_def)
  let ?D = "\<lambda>p. dst_pos indet (di ! p) (dj ! p) (sk ! p)"
  let ?H = "\<lambda>p. hit_pos indet (di ! p) (dj ! p) (sk ! p)"
  let ?z = "(vdupq_n_u8 0, vdupq_n_u8 0)"
  have test: "(int_of_size_t (k + NLANES_8 * UCHAR_MAX) < int n) = (k + 4080 < n)"
    using loop_test_exact[OF wf(4) "1.prems"(2), of 4080] by (simp add: NLANES_8_def UCHAR_MAX_def)
  show ?case
  proof (cases "k + 4080 < n")
    case False
    have "seqidentity_blocks aarch64 indet n di dj sk k dst hit acc = Some (k, dst, hit, ?z)"
      by (subst seqidentity_blocks.simps) (simp add: test False acc)
    with False "1.prems"(2) show ?thesis by (simp add: count_range_zero)
  next
    case True
    have b: "k + 16 * (255 - 0) \<le> length di" "k + 16 * (255 - 0) \<le> length dj"
      "k + 16 * (255 - 0) \<le> length sk"
      using True wf(1,2,3) by simp_all
    from seqidentity_unrolled_count[OF lanes_ok_mono[OF lanes_ok_zero] _ b wf(5), of indet]
    obtain acc' where
      u: "seqidentity_unrolled indet di dj sk 0 k ?z = (k + 4080, acc')"
      and ok': "lanes_ok 255 acc'"
      and s1: "lane_sum (fst acc') = count_range ?D k 4080"
      and s2: "lane_sum (snd acc') = count_range ?H k 4080"
      by (auto simp: lane_sum_zero)
    obtain da ha where acc': "acc' = (da, ha)" by (cases acc')
    have h1: "unat (vhaddq_u8 aarch64 da) = count_range ?D k 4080"
      and h2: "unat (vhaddq_u8 aarch64 ha) = count_range ?H k 4080"
      using ok' s1 s2 by (simp_all add: acc' lanes_ok_def unat_vhaddq_u8)
    have c1: "int_of_size_t (k + NLANES_8 * UCHAR_MAX) < int n" using test True by simp
    have c2: "k + NLANES_8 * UCHAR_MAX \<le> length di \<and> k + NLANES_8 * UCHAR_MAX \<le> length dj
        \<and> k + NLANES_8 * UCHAR_MAX \<le> length sk"
      using b by (simp add: NLANES_8_def UCHAR_MAX_def)
    have kn: "k + 4080 \<le> n" using True by simp
    note ih = "1.IH"[OF c1 c2 u[symmetric, unfolded acc', folded acc] refl "1.prems"(1) kn refl]
    from ih
    obtain k' where
      r: "seqidentity_blocks aarch64 indet n di dj sk (k + 4080)
            (dst + unat (vhaddq_u8 aarch64 da)) (hit + unat (vhaddq_u8 aarch64 ha)) ?z
          = Some (k', dst + unat (vhaddq_u8 aarch64 da) + count_range ?D (k + 4080) (k' - (k + 4080)),
                  hit + unat (vhaddq_u8 aarch64 ha) + count_range ?H (k + 4080) (k' - (k + 4080)), ?z)"
      and k': "k + 4080 \<le> k'" "k' \<le> n" "n \<le> k' + 4080"
      by blast
    have e: "seqidentity_blocks aarch64 indet n di dj sk k dst hit acc
          = seqidentity_blocks aarch64 indet n di dj sk (k + 4080)
            (dst + unat (vhaddq_u8 aarch64 da)) (hit + unat (vhaddq_u8 aarch64 ha)) ?z"
      by (subst seqidentity_blocks.simps) (simp add: c1 c2 u[folded acc] acc')
    have d: "k' - k = 4080 + (k' - (k + 4080))" using k' by simp
    have cr: "count_range P k (k' - k)
        = count_range P k 4080 + count_range P (k + 4080) (k' - (k + 4080))" for P
      by (subst d) (rule count_range_add)
    have kk: "k \<le> k'" using k' by simp
    show ?thesis
      using kk k'(2,3) r[unfolded h1 h2]
      by (intro exI[of _ k']) (simp add: e h1 h2 cr add.assoc)
  qed
qed

lemma seqidentity_vectors_count:
  assumes "masked_ok n di dj sk" "k \<le> n"
    and "lanes_ok t acc" "16 * t + (n - k) \<le> 4080"
  shows "\<exists>k' acc'. seqidentity_vectors indet n di dj sk k acc = Some (k', acc')
      \<and> k \<le> k' \<and> k' \<le> n \<and> n \<le> k' + 16 \<and> lanes_ok 255 acc'
      \<and> lane_sum (fst acc') = lane_sum (fst acc)
            + count_range (\<lambda>p. dst_pos indet (di ! p) (dj ! p) (sk ! p)) k (k' - k)
      \<and> lane_sum (snd acc') = lane_sum (snd acc)
            + count_range (\<lambda>p. hit_pos indet (di ! p) (dj ! p) (sk ! p)) k (k' - k)"
  using assms
proof (induction indet n di dj sk k acc arbitrary: t rule: seqidentity_vectors.induct)
  case (1 indet n di dj sk k acc)
  have wf: "n \<le> length di" "n \<le> length dj" "n \<le> length sk" "n + 4080 < 2 ^ 31"
    "\<forall>x\<in>set sk. x = 0 \<or> x = 255"
    using "1.prems"(1) by (simp_all add: masked_ok_def)
  let ?D = "\<lambda>p. dst_pos indet (di ! p) (dj ! p) (sk ! p)"
  let ?H = "\<lambda>p. hit_pos indet (di ! p) (dj ! p) (sk ! p)"
  have test: "(int_of_size_t (k + NLANES_8) < int n) = (k + 16 < n)"
    using loop_test_exact[OF wf(4) "1.prems"(2), of 16] by (simp add: NLANES_8_def)
  show ?case
  proof (cases "k + 16 < n")
    case False
    have "seqidentity_vectors indet n di dj sk k acc = Some (k, acc)"
      by (subst seqidentity_vectors.simps) (simp add: test False)
    moreover have "lanes_ok 255 acc"
      using "1.prems"(3,4) by (auto intro: lanes_ok_mono)
    ultimately show ?thesis using False "1.prems"(2) by (simp add: count_range_zero)
  next
    case True
    let ?acc1 = "seqidentity_step indet (vld1q_u8 di k) (vld1q_u8 dj k) (vld1q_u8 sk k) acc"
    have t: "t < 255" using True "1.prems"(4) by simp
    have b: "k + 16 \<le> length di" "k + 16 \<le> length dj" "k + 16 \<le> length sk"
      using True wf(1,2,3) by simp_all
    note st = seqidentity_step_count[OF "1.prems"(3) t b wf(5), of indet]
    have ok1: "lanes_ok (Suc t) ?acc1" using st by simp
    have c1: "int_of_size_t (k + NLANES_8) < int n" using test True by simp
    have c2: "k + NLANES_8 \<le> length di \<and> k + NLANES_8 \<le> length dj \<and> k + NLANES_8 \<le> length sk"
      using b by (simp add: NLANES_8_def)
    have kn: "k + NLANES_8 \<le> n" using True by (simp add: NLANES_8_def)
    have m: "16 * Suc t + (n - (k + NLANES_8)) \<le> 4080"
      using True "1.prems"(4) by (simp add: NLANES_8_def)
    from "1.IH"[OF c1 c2 "1.prems"(1) kn ok1 m]
    obtain k' acc' where
      r: "seqidentity_vectors indet n di dj sk (k + NLANES_8) ?acc1 = Some (k', acc')"
      and k': "k + NLANES_8 \<le> k'" "k' \<le> n" "n \<le> k' + 16"
      and ok': "lanes_ok 255 acc'"
      and s1: "lane_sum (fst acc') = lane_sum (fst ?acc1) + count_range ?D (k + NLANES_8) (k' - (k + NLANES_8))"
      and s2: "lane_sum (snd acc') = lane_sum (snd ?acc1) + count_range ?H (k + NLANES_8) (k' - (k + NLANES_8))"
      by blast
    have e: "seqidentity_vectors indet n di dj sk k acc = Some (k', acc')"
      using r by (subst seqidentity_vectors.simps) (simp add: c1 c2)
    have d: "k' - k = 16 + (k' - (k + 16))" using k' by (simp add: NLANES_8_def)
    have cr: "count_range P k (k' - k)
        = count_range P k 16 + count_range P (k + 16) (k' - (k + 16))" for P
      by (subst d) (rule count_range_add)
    have kk: "k \<le> k'" using k' by (simp add: NLANES_8_def)
    show ?thesis
      using kk k'(2,3) ok' s1 s2 st e
      by (intro exI[of _ k'] exI[of _ acc']) (simp add: cr NLANES_8_def)
  qed
qed

lemma seqidentity_tail_count:
  assumes "n \<le> length di" "n \<le> length dj" "n \<le> length sk" "k \<le> n"
  shows "seqidentity_tail indet n di dj sk k dst hit
      = Some (dst + count_range (\<lambda>p. dst_pos indet (di ! p) (dj ! p) (sk ! p)) k (n - k),
              hit + count_range (\<lambda>p. hit_pos indet (di ! p) (dj ! p) (sk ! p)) k (n - k))"
  using assms
proof (induction indet n di dj sk k dst hit rule: seqidentity_tail.induct)
  case (1 indet n di dj sk k dst hit)
  show ?case
  proof (cases "k < n")
    case False
    then show ?thesis
      by (subst seqidentity_tail.simps) (simp add: count_range_zero)
  next
    case True
    have b: "k < length di \<and> k < length dj \<and> k < length sk" using True "1.prems" by simp
    have d: "n - k = Suc (n - (k + 1))" using True by simp
    have cr: "count_range P k (n - k) = of_bool (P k) + count_range P (k + 1) (n - (k + 1))" for P
      by (subst d) (simp add: count_range_Suc)
    have kn: "k + 1 \<le> n" using True by simp
    note ih = "1.IH"[OF True b refl refl "1.prems"(1,2,3) kn]
    show ?thesis
      apply (subst seqidentity_tail.simps)
      apply (subst if_P[OF True])
      apply (subst if_P[OF b])
      apply (unfold Let_def)
      apply (subst ih)
      apply (simp only: cr)
      apply (simp add: dst_pos_def hit_pos_def)
      done
  qed
qed

section \<open>The vector scans and the scalar reference\<close>

lemma scalar_identity_step_eq:
  "scalar_identity_step indet si sj k (s, l)
   = (s + of_bool (match_pos indet (si ! k) (sj ! k)), l + of_bool (length_pos indet (si ! k) (sj ! k)))"
  by (simp add: scalar_identity_step_def match_pos_def length_pos_def Let_def)

lemma fold_identity_count:
  "fold (scalar_identity_step indet si sj) [k..<k + m] (s, l)
   = (s + count_range (\<lambda>p. match_pos indet (si ! p) (sj ! p)) k m,
      l + count_range (\<lambda>p. length_pos indet (si ! p) (sj ! p)) k m)"
proof (induction m arbitrary: s l k)
  case 0
  then show ?case by (simp add: count_range_zero)
next
  case (Suc m)
  have u: "[k..<k + Suc m] = k # [Suc k..<Suc k + m]"
    by (simp add: upt_conv_Cons)
  have "fold (scalar_identity_step indet si sj) [k..<k + Suc m] (s, l)
      = fold (scalar_identity_step indet si sj) [Suc k..<Suc k + m]
          (scalar_identity_step indet si sj k (s, l))"
    by (simp only: u fold_Cons comp_apply)
  then show ?case
    by (simp only: scalar_identity_step_eq Suc.IH count_range_Suc add.assoc)
qed

lemma scalar_identity_counts_eq:
  "scalar_identity_counts indet n si sj
   = (count_range (\<lambda>p. match_pos indet (si ! p) (sj ! p)) 0 n,
      count_range (\<lambda>p. length_pos indet (si ! p) (sj ! p)) 0 n)"
  unfolding scalar_identity_counts_def using fold_identity_count[of indet si sj 0 n 0 0] by simp

lemma scalar_seqidentity_step_eq:
  "scalar_seqidentity_step indet si sj sk k (d, h)
   = (d + of_bool (dst_pos indet (si ! k) (sj ! k) (sk ! k)),
      h + of_bool (hit_pos indet (si ! k) (sj ! k) (sk ! k)))"
proof -
  have c: "(sk ! k = 0 \<and> \<not> ((si ! k = chr_gap \<or> si ! k = indet) \<and> (sj ! k = chr_gap \<or> sj ! k = indet)))
      = dst_pos indet (si ! k) (sj ! k) (sk ! k)"
    unfolding dst_pos_def by blast
  show ?thesis
    unfolding scalar_seqidentity_step_def Let_def c hit_pos_def by simp metis
qed

lemma fold_seqidentity_count:
  "fold (scalar_seqidentity_step indet si sj sk) [k..<k + m] (d, h)
   = (d + count_range (\<lambda>p. dst_pos indet (si ! p) (sj ! p) (sk ! p)) k m,
      h + count_range (\<lambda>p. hit_pos indet (si ! p) (sj ! p) (sk ! p)) k m)"
proof (induction m arbitrary: d h k)
  case 0
  then show ?case by (simp add: count_range_zero)
next
  case (Suc m)
  have u: "[k..<k + Suc m] = k # [Suc k..<Suc k + m]"
    by (simp add: upt_conv_Cons)
  have "fold (scalar_seqidentity_step indet si sj sk) [k..<k + Suc m] (d, h)
      = fold (scalar_seqidentity_step indet si sj sk) [Suc k..<Suc k + m]
          (scalar_seqidentity_step indet si sj sk k (d, h))"
    by (simp only: u fold_Cons comp_apply)
  then show ?case
    by (simp only: scalar_seqidentity_step_eq Suc.IH count_range_Suc add.assoc)
qed

lemma scalar_seqidentity_counts_eq:
  "scalar_seqidentity_counts indet n si sj sk
   = (count_range (\<lambda>p. dst_pos indet (si ! p) (sj ! p) (sk ! p)) 0 n,
      count_range (\<lambda>p. hit_pos indet (si ! p) (sj ! p) (sk ! p)) 0 n)"
  unfolding scalar_seqidentity_counts_def
  using fold_seqidentity_count[of indet si sj sk 0 n 0 0] by simp

lemma count_range_cong:
  assumes "\<And>p. k \<le> p \<Longrightarrow> p < k + m \<Longrightarrow> P p = Q p"
  shows "count_range P k m = count_range Q k m"
  unfolding count_range_def using assms by (intro arg_cong[where f = sum_list] map_cong) auto

lemma identity_counts_exact:
  assumes "n \<le> length di" "n \<le> length dj" "n + 4080 < 2 ^ 31"
  shows "identity_counts aarch64 indet n di dj
     = Some (count_range (\<lambda>p. match_pos indet (di ! p) (dj ! p)) 0 n,
             count_range (\<lambda>p. length_pos indet (di ! p) (dj ! p)) 0 n)"
proof -
  let ?M = "\<lambda>p. match_pos indet (di ! p) (dj ! p)" and ?L = "\<lambda>p. length_pos indet (di ! p) (dj ! p)"
  let ?z = "(vdupq_n_u8 0, vdupq_n_u8 0)"
  from identity_blocks_count[OF assms _ refl, of 0 aarch64 indet 0 0]
  obtain k1 where
    b: "identity_blocks aarch64 indet n di dj 0 0 0 ?z
         = Some (k1, count_range ?M 0 k1, count_range ?L 0 k1, ?z)"
    and k1: "k1 \<le> n" "n \<le> k1 + 4080"
    by auto
  have m: "16 * 0 + (n - k1) \<le> 4080" using k1 by simp
  from identity_vectors_count[OF assms k1(1) lanes_ok_zero m, of indet]
  obtain k2 acc where
    v: "identity_vectors indet n di dj k1 ?z = Some (k2, acc)"
    and k2: "k1 \<le> k2" "k2 \<le> n"
    and ok: "lanes_ok 255 acc"
    and s1: "lane_sum (fst acc) = count_range ?M k1 (k2 - k1)"
    and s2: "lane_sum (snd acc) = count_range ?L k1 (k2 - k1)"
    by (auto simp: lane_sum_zero)
  obtain sa la where acc: "acc = (sa, la)" by (cases acc)
  have h1: "unat (vhaddq_u8 aarch64 sa) = count_range ?M k1 (k2 - k1)"
    and h2: "unat (vhaddq_u8 aarch64 la) = count_range ?L k1 (k2 - k1)"
    using ok s1 s2 by (simp_all add: acc lanes_ok_def unat_vhaddq_u8)
  note t = identity_tail_count[OF assms(1,2) k2(2), of indet]
  have d: "n = k1 + ((k2 - k1) + (n - k2))" using k2 k1 by simp
  have cr: "count_range P 0 n
      = count_range P 0 k1 + (count_range P k1 (k2 - k1) + count_range P k2 (n - k2))" for P
  proof -
    have "count_range P 0 n = count_range P 0 (k1 + ((k2 - k1) + (n - k2)))" using d by simp
    also have "\<dots> = count_range P 0 k1 + count_range P (0 + k1) ((k2 - k1) + (n - k2))"
      by (rule count_range_add)
    also have "count_range P (0 + k1) ((k2 - k1) + (n - k2))
        = count_range P k1 (k2 - k1) + count_range P (k1 + (k2 - k1)) (n - k2)"
      by (simp only: add_0 count_range_add)
    finally show ?thesis using k2 by simp
  qed
  show ?thesis
    unfolding identity_counts_def by (simp add: b v acc h1 h2 t cr add.assoc)
qed

lemma nth_data: "p < length s \<Longrightarrow> data s ! p = s ! p"
  by (simp add: data_def nth_append)

lemma identity_counts_data:
  assumes "length si = n" "length sj = n" "n + 4080 < 2 ^ 31"
  shows "identity_counts aarch64 indet n (data si) (data sj) = Some (scalar_identity_counts indet n si sj)"
proof -
  have l: "n \<le> length (data si)" "n \<le> length (data sj)" using assms by (simp_all add: data_def)
  show ?thesis
    unfolding identity_counts_exact[OF l assms(3)] scalar_identity_counts_eq
    using assms by (auto intro!: count_range_cong simp: nth_data)
qed

lemma NEONCleaner_skipResidues:
  "length (skipResidues (NEONCleaner al h32 h8)) = originalNumberOfResidues al"
  "\<forall>x\<in>set (skipResidues (NEONCleaner al h32 h8)). x = 0 \<or> x = 255"
  by (auto simp: NEONCleaner_def)

lemma seqidentity_counts_exact:
  assumes "masked_ok n di dj sk"
  shows "seqidentity_counts aarch64 indet n di dj sk
     = Some (count_range (\<lambda>p. dst_pos indet (di ! p) (dj ! p) (sk ! p)) 0 n,
             count_range (\<lambda>p. hit_pos indet (di ! p) (dj ! p) (sk ! p)) 0 n)"
proof -
  let ?D = "\<lambda>p. dst_pos indet (di ! p) (dj ! p) (sk ! p)"
  let ?H = "\<lambda>p. hit_pos indet (di ! p) (dj ! p) (sk ! p)"
  let ?z = "(vdupq_n_u8 0, vdupq_n_u8 0)"
  have wf: "n \<le> length di" "n \<le> length dj" "n \<le> length sk"
    using assms by (simp_all add: masked_ok_def)
  from seqidentity_blocks_count[OF assms _ refl, of 0 aarch64 indet 0 0]
  obtain k1 where
    b: "seqidentity_blocks aarch64 indet n di dj sk 0 0 0 ?z
         = Some (k1, count_range ?D 0 k1, count_range ?H 0 k1, ?z)"
    and k1: "k1 \<le> n" "n \<le> k1 + 4080"
    by auto
  have m: "16 * 0 + (n - k1) \<le> 4080" using k1 by simp
  from seqidentity_vectors_count[OF assms k1(1) lanes_ok_zero m, of indet]
  obtain k2 acc where
    v: "seqidentity_vectors indet n di dj sk k1 ?z = Some (k2, acc)"
    and k2: "k1 \<le> k2" "k2 \<le> n"
    and ok: "lanes_ok 255 acc"
    and s1: "lane_sum (fst acc) = count_range ?D k1 (k2 - k1)"
    and s2: "lane_sum (snd acc) = count_range ?H k1 (k2 - k1)"
    by (auto simp: lane_sum_zero)
  obtain da ha where acc: "acc = (da, ha)" by (cases acc)
  have h1: "unat (vhaddq_u8 aarch64 da) = count_range ?D k1 (k2 - k1)"
    and h2: "unat (vhaddq_u8 aarch64 ha) = count_range ?H k1 (k2 - k1)"
    using ok s1 s2 by (simp_all add: acc lanes_ok_def unat_vhaddq_u8)
  note t = seqidentity_tail_count[OF wf k2(2), of indet]
  have d: "n = k1 + ((k2 - k1) + (n - k2))" using k2 k1 by simp
  have cr: "count_range P 0 n
      = count_range P 0 k1 + (count_range P k1 (k2 - k1) + count_range P k2 (n - k2))" for P
  proof -
    have "count_range P 0 n = count_range P 0 (k1 + ((k2 - k1) + (n - k2)))" using d by simp
    also have "\<dots> = count_range P 0 k1 + count_range P (0 + k1) ((k2 - k1) + (n - k2))"
      by (rule count_range_add)
    also have "count_range P (0 + k1) ((k2 - k1) + (n - k2))
        = count_range P k1 (k2 - k1) + count_range P (k1 + (k2 - k1)) (n - k2)"
      by (simp only: add_0 count_range_add)
    finally show ?thesis using k2 by simp
  qed
  show ?thesis
    unfolding seqidentity_counts_def by (simp add: b v acc h1 h2 t cr add.assoc)
qed

lemma seqidentity_counts_data:
  assumes "length si = n" "length sj = n" "length sk = n" "n + 4080 < 2 ^ 31"
    and "\<forall>x\<in>set sk. x = 0 \<or> x = 255"
  shows "seqidentity_counts aarch64 indet n (data si) (data sj) sk
     = Some (scalar_seqidentity_counts indet n si sj sk)"
proof -
  have ok: "masked_ok n (data si) (data sj) sk"
    using assms by (simp add: masked_ok_def data_def)
  show ?thesis
    unfolding seqidentity_counts_exact[OF ok] scalar_seqidentity_counts_eq
    using assms by (auto intro!: count_range_cong simp: nth_data)
qed

section \<open>The identity matrix\<close>

lemma assign_both_apply:
  "assign_both m i j v a b = (if (a = i \<and> b = j) \<or> (a = j \<and> b = i) then v else m a b)"
  by (simp add: assign_both_def Let_def)

lemma alignment_ok_seq:
  "alignment_ok al \<Longrightarrow> i < originalNumberOfSequences al
     \<Longrightarrow> length (sequences al ! i) = originalNumberOfResidues al"
  by (simp add: alignment_ok_def list_all_length)

lemma identity_row_result:
  assumes "alignment_ok al" "i < j"
  shows "identity_row aarch64 al i j m
     = Some (\<lambda>a b. if a = i \<and> j \<le> b \<and> b < originalNumberOfSequences al then reference_distance al i b
                    else if b = i \<and> j \<le> a \<and> a < originalNumberOfSequences al then reference_distance al i a
                    else m a b)"
  using assms
proof (induction aarch64 al i j m rule: identity_row.induct)
  case (1 aarch64 al i j m)
  let ?N = "originalNumberOfSequences al"
  show ?case
  proof (cases "j < ?N")
    case False
    have "(\<lambda>a b. if a = i \<and> j \<le> b \<and> b < ?N then reference_distance al i b
                    else if b = i \<and> j \<le> a \<and> a < ?N then reference_distance al i a
                    else m a b) = m"
      using False by (intro ext) auto
    then show ?thesis
      using False by (subst identity_row.simps) simp
  next
    case True
    have iN: "i < ?N" using True "1.prems"(2) by simp
    have n: "originalNumberOfResidues al + 4080 < 2 ^ 31"
      using "1.prems"(1) by (simp add: alignment_ok_def)
    have c: "identity_counts aarch64 (indet_symbol al) (originalNumberOfResidues al)
              (data (sequences al ! i)) (data (sequences al ! j))
          = Some (scalar_identity_counts (indet_symbol al) (originalNumberOfResidues al)
              (sequences al ! i) (sequences al ! j))"
      by (rule identity_counts_data[OF alignment_ok_seq[OF "1.prems"(1) iN]
            alignment_ok_seq[OF "1.prems"(1) True] n])
    have ij: "i < j + 1" using "1.prems"(2) by simp
    note ih = "1.IH"[OF True c "1.prems"(1) ij]
    have e: "(\<lambda>a b. if a = i \<and> j + 1 \<le> b \<and> b < ?N then reference_distance al i b
                    else if b = i \<and> j + 1 \<le> a \<and> a < ?N then reference_distance al i a
                    else assign_both m i j (reference_distance al i j) a b)
        = (\<lambda>a b. if a = i \<and> j \<le> b \<and> b < ?N then reference_distance al i b
                    else if b = i \<and> j \<le> a \<and> a < ?N then reference_distance al i a
                    else m a b)"
      using True "1.prems"(2) by (intro ext) (auto simp: assign_both_apply)
    show ?thesis
      apply (subst identity_row.simps)
      apply (simp only: True if_True c option.case)
      apply (fold reference_distance_def)
      apply (simp only: ih[folded reference_distance_def] e)
      done
  qed
qed

lemma identity_rows_result:
  assumes "alignment_ok al"
  shows "identity_rows aarch64 al i m
     = Some (\<lambda>a b. if a \<noteq> b \<and> a < originalNumberOfSequences al \<and> b < originalNumberOfSequences al
                       \<and> i \<le> min a b
                    then reference_distance al (min a b) (max a b) else m a b)"
  using assms
proof (induction aarch64 al i m rule: identity_rows.induct)
  case (1 aarch64 al i m)
  let ?N = "originalNumberOfSequences al"
  show ?case
  proof (cases "i < ?N")
    case False
    have "(\<lambda>a b. if a \<noteq> b \<and> a < ?N \<and> b < ?N \<and> i \<le> min a b
                    then reference_distance al (min a b) (max a b) else m a b) = m"
      using False by (intro ext) auto
    then show ?thesis
      using False by (subst identity_rows.simps) simp
  next
    case True
    let ?m1 = "\<lambda>a b. if a = i \<and> i + 1 \<le> b \<and> b < ?N then reference_distance al i b
                    else if b = i \<and> i + 1 \<le> a \<and> a < ?N then reference_distance al i a
                    else m a b"
    have r: "identity_row aarch64 al i (i + 1) m = Some ?m1"
      by (rule identity_row_result[OF "1.prems"]) simp
    note ih = "1.IH"[OF True r "1.prems"]
    have e: "(\<lambda>a b. if a \<noteq> b \<and> a < ?N \<and> b < ?N \<and> i + 1 \<le> min a b
                    then reference_distance al (min a b) (max a b) else ?m1 a b)
        = (\<lambda>a b. if a \<noteq> b \<and> a < ?N \<and> b < ?N \<and> i \<le> min a b
                    then reference_distance al (min a b) (max a b) else m a b)"
      by (intro ext) (auto simp: min_def max_def)
    show ?thesis
      apply (subst identity_rows.simps)
      apply (simp only: True if_True r option.case ih e)
      done
  qed
qed

lemma calculateMatrixIdentity_result:
  assumes "alignment_ok (alig st)" "matrixIdentity st = None"
  shows "calculateMatrixIdentity aarch64 fresh st
     = Some (st\<lparr>matrixIdentity := Some (\<lambda>a b.
          if a \<noteq> b \<and> a < originalNumberOfSequences (alig st) \<and> b < originalNumberOfSequences (alig st)
          then reference_distance (alig st) (min a b) (max a b) else fresh a b)\<rparr>)"
  unfolding calculateMatrixIdentity_def identity_rows_result[OF assms(1)]
  using assms(2) by simp

section \<open>The masked identity matrix\<close>

lemma seqidentity_alloc_result:
  "seqidentity_alloc al i m
     = (\<lambda>a b. if a = b \<and> i \<le> a \<and> a < originalNumberOfSequences al \<and> kept al a
               then Fin 0 else m a b)"
proof (induction al i m rule: seqidentity_alloc.induct)
  case (1 al i m)
  let ?N = "originalNumberOfSequences al"
  show ?case
  proof (cases "i < ?N")
    case False
    then show ?thesis
      by (subst seqidentity_alloc.simps) (auto intro!: ext)
  next
    case True
    show ?thesis
    proof (cases "saveSequences al ! i = - 1")
      case s: True
      have "seqidentity_alloc al i m = seqidentity_alloc al (i + 1) m"
        by (subst seqidentity_alloc.simps) (simp add: True s)
      also note "1.IH"(1)[OF True s]
      finally show ?thesis
        using s by (auto intro!: ext simp: kept_def Suc_le_eq le_less)
    next
      case s: False
      have "seqidentity_alloc al i m = seqidentity_alloc al (i + 1) (m(i := (m i)(i := Fin 0)))"
        by (subst seqidentity_alloc.simps) (simp add: True s)
      also note "1.IH"(2)[OF True s]
      finally show ?thesis
        using s True by (auto intro!: ext simp: kept_def Suc_le_eq le_less)
    qed
  qed
qed

lemma cleaner_ok_counts:
  assumes "cleaner_ok c" "i < originalNumberOfSequences (calig c)"
    "j < originalNumberOfSequences (calig c)"
  shows "seqidentity_counts aarch64 (indet_symbol (calig c)) (originalNumberOfResidues (calig c))
            (data (sequences (calig c) ! i)) (data (sequences (calig c) ! j)) (skipResidues c)
     = Some (scalar_seqidentity_counts (indet_symbol (calig c)) (originalNumberOfResidues (calig c))
            (sequences (calig c) ! i) (sequences (calig c) ! j) (skipResidues c))"
proof -
  have a: "alignment_ok (calig c)" and l: "length (skipResidues c) = originalNumberOfResidues (calig c)"
    and v: "\<forall>x\<in>set (skipResidues c). x = 0 \<or> x = 255"
    using assms(1) by (simp_all add: cleaner_ok_def list_all_iff)
  have n: "originalNumberOfResidues (calig c) + 4080 < 2 ^ 31"
    using a by (simp add: alignment_ok_def)
  show ?thesis
    by (rule seqidentity_counts_data[OF alignment_ok_seq[OF a assms(2)]
          alignment_ok_seq[OF a assms(3)] l n v])
qed

lemma seqidentity_row_result:
  assumes "cleaner_ok c" "i < j"
  shows "\<exists>reps'. seqidentity_row aarch64 c i j st
     = Some (\<lambda>a b. if a = i \<and> j \<le> b \<and> b < originalNumberOfSequences (calig c) \<and> kept (calig c) b
                      then reference_identity c i b
                    else if b = i \<and> j \<le> a \<and> a < originalNumberOfSequences (calig c) \<and> kept (calig c) a
                      then reference_identity c i a
                    else fst st a b, reps')"
  using assms
proof (induction aarch64 c i j st rule: seqidentity_row.induct)
  case (1 aarch64 c i j st)
  let ?N = "originalNumberOfSequences (calig c)"
  let ?F = "\<lambda>j m. (\<lambda>a b. if a = i \<and> j \<le> b \<and> b < ?N \<and> kept (calig c) b
                      then reference_identity c i b
                    else if b = i \<and> j \<le> a \<and> a < ?N \<and> kept (calig c) a
                      then reference_identity c i a
                    else m a b)"
  obtain m reps where st: "st = (m, reps)" by (cases st)
  show ?case
  proof (cases "j < ?N")
    case False
    have "?F j (fst st) = fst st" using False by (intro ext) auto
    then show ?thesis
      using False by (subst seqidentity_row.simps) (simp add: st)
  next
    case True
    have ij: "i < j + 1" using "1.prems"(2) by simp
    show ?thesis
    proof (cases "saveSequences (calig c) ! j = - 1")
      case s: True
      from "1.IH"(1)[OF True s "1.prems"(1) ij]
      obtain reps' where r: "seqidentity_row aarch64 c i (j + 1) st = Some (?F (j + 1) (fst st), reps')"
        by blast
      have e: "?F (j + 1) (fst st) = ?F j (fst st)"
        using s by (intro ext) (auto simp: kept_def Suc_le_eq le_less)
      have "seqidentity_row aarch64 c i j st = seqidentity_row aarch64 c i (j + 1) st"
        by (subst seqidentity_row.simps) (simp add: True s)
      then show ?thesis using r e by simp
    next
      case s: False
      have iN: "i < ?N" using True "1.prems"(2) by simp
      let ?cnt = "scalar_seqidentity_counts (indet_symbol (calig c)) (originalNumberOfResidues (calig c))
            (sequences (calig c) ! i) (sequences (calig c) ! j) (skipResidues c)"
      note cnt = cleaner_ok_counts[OF "1.prems"(1) iN True, of aarch64]
      obtain v rep where vr: "seqidentity_value (calig c) i j ?cnt = (v, rep)"
        by (cases "seqidentity_value (calig c) i j ?cnt")
      have v: "v = reference_identity c i j" by (simp add: reference_identity_def vr)
      let ?m1 = "m(i := (m i)(j := v))"
      let ?m2 = "?m1(j := (?m1 j)(i := ?m1 i j))"
      from "1.IH"(2)[OF True s cnt st[symmetric] vr[symmetric] refl refl "1.prems"(1) ij,
          unfolded fst_conv]
      obtain reps' where
        r: "seqidentity_row aarch64 c i (j + 1) (?m2, reps @ rep) = Some (?F (j + 1) ?m2, reps')"
        by blast
      have e: "?F (j + 1) ?m2 = ?F j (fst st)"
        using s True "1.prems"(2) by (intro ext) (auto simp: kept_def st v)
      have "seqidentity_row aarch64 c i j st = seqidentity_row aarch64 c i (j + 1) (?m2, reps @ rep)"
        by (subst seqidentity_row.simps) (simp add: True s cnt st vr Let_def)
      then show ?thesis using r e by simp
    qed
  qed
qed


lemma seqidentity_rows_result:
  assumes "cleaner_ok c"
  shows "\<exists>reps'. seqidentity_rows aarch64 c i st
     = Some (\<lambda>a b. if a \<noteq> b \<and> a < originalNumberOfSequences (calig c)
                       \<and> b < originalNumberOfSequences (calig c)
                       \<and> kept (calig c) a \<and> kept (calig c) b \<and> i \<le> min a b
                    then reference_identity c (min a b) (max a b) else fst st a b, reps')"
  using assms
proof (induction aarch64 c i st rule: seqidentity_rows.induct)
  case (1 aarch64 c i st)
  let ?N = "originalNumberOfSequences (calig c)"
  let ?G = "\<lambda>i m. (\<lambda>a b. if a \<noteq> b \<and> a < ?N \<and> b < ?N
                       \<and> kept (calig c) a \<and> kept (calig c) b \<and> i \<le> min a b
                    then reference_identity c (min a b) (max a b) else m a b)"
  show ?case
  proof (cases "i < ?N")
    case False
    have "?G i (fst st) = fst st" using False by (intro ext) auto
    then show ?thesis
      using False by (subst seqidentity_rows.simps) (simp add: prod_eq_iff)
  next
    case True
    show ?thesis
    proof (cases "saveSequences (calig c) ! i = - 1")
      case s: True
      from "1.IH"(1)[OF True s "1.prems"]
      obtain reps' where r: "seqidentity_rows aarch64 c (i + 1) st = Some (?G (i + 1) (fst st), reps')"
        by blast
      have e: "?G (i + 1) (fst st) = ?G i (fst st)"
      proof (intro ext)
        fix a b
        have "\<not> kept (calig c) i" using s by (simp add: kept_def)
        then have "a \<noteq> b \<and> kept (calig c) a \<and> kept (calig c) b \<and> i \<le> min a b
            \<longrightarrow> i + 1 \<le> min a b"
          by (cases "a = i"; cases "b = i") (auto simp: min_def)
        then show "?G (i + 1) (fst st) a b = ?G i (fst st) a b" by auto
      qed
      have "seqidentity_rows aarch64 c i st = seqidentity_rows aarch64 c (i + 1) st"
        by (subst seqidentity_rows.simps) (simp add: True s)
      then show ?thesis using r e by simp
    next
      case s: False
      let ?m1 = "\<lambda>a b. if a = i \<and> i + 1 \<le> b \<and> b < ?N \<and> kept (calig c) b
                      then reference_identity c i b
                    else if b = i \<and> i + 1 \<le> a \<and> a < ?N \<and> kept (calig c) a
                      then reference_identity c i a
                    else fst st a b"
      from seqidentity_row_result[OF "1.prems", of i "i + 1" aarch64 st]
      obtain reps1 where r1: "seqidentity_row aarch64 c i (i + 1) st = Some (?m1, reps1)"
        by auto
      from "1.IH"(2)[OF True s r1 "1.prems", unfolded fst_conv]
      obtain reps' where r: "seqidentity_rows aarch64 c (i + 1) (?m1, reps1) = Some (?G (i + 1) ?m1, reps')"
        by blast
      have k: "kept (calig c) i" using s by (simp add: kept_def)
      have e: "?G (i + 1) ?m1 = ?G i (fst st)"
        using k True by (intro ext) (auto simp: min_def max_def)
      have "seqidentity_rows aarch64 c i st = seqidentity_rows aarch64 c (i + 1) (?m1, reps1)"
        using r1 by (subst seqidentity_rows.simps) (simp add: True s)
      then show ?thesis using r e by simp
    qed
  qed
qed

lemma calculateSeqIdentity_result:
  assumes "cleaner_ok c"
  shows "\<exists>reps. calculateSeqIdentity aarch64 fresh c
     = Some (c\<lparr>calig := (calig c)\<lparr>identities := (\<lambda>a b.
          if a \<noteq> b \<and> a < originalNumberOfSequences (calig c)
               \<and> b < originalNumberOfSequences (calig c) \<and> kept (calig c) a \<and> kept (calig c) b
          then reference_identity c (min a b) (max a b)
          else if a = b \<and> a < originalNumberOfSequences (calig c) \<and> kept (calig c) a then Fin 0
          else fresh a b)\<rparr>\<rparr>, reps)"
proof -
  from seqidentity_rows_result[OF assms, of aarch64 0 "(seqidentity_alloc (calig c) 0 fresh, [])",
      unfolded fst_conv]
  obtain reps where
    r: "seqidentity_rows aarch64 c 0 (seqidentity_alloc (calig c) 0 fresh, [])
        = Some (\<lambda>a b. if a \<noteq> b \<and> a < originalNumberOfSequences (calig c)
                       \<and> b < originalNumberOfSequences (calig c)
                       \<and> kept (calig c) a \<and> kept (calig c) b \<and> 0 \<le> min a b
                    then reference_identity c (min a b) (max a b)
                    else seqidentity_alloc (calig c) 0 fresh a b, reps)"
    by blast
  have a: "seqidentity_alloc (calig c) 0 fresh a b
      = (if a = b \<and> a < originalNumberOfSequences (calig c) \<and> kept (calig c) a
         then Fin 0 else fresh a b)" for a b
    using fun_cong[OF fun_cong[OF seqidentity_alloc_result[of "calig c" 0 fresh]], of a b]
    by simp
  show ?thesis
    unfolding calculateSeqIdentity_def r by (simp add: a cong: if_cong)
qed

section \<open>The vector code against the scalar reference\<close>

lemma NEONCleaner_ok: "alignment_ok al \<Longrightarrow> cleaner_ok (NEONCleaner al h32 h8)"
  using NEONCleaner_skipResidues[of al h32 h8]
  by (simp add: cleaner_ok_def list_all_iff) (simp add: NEONCleaner_def)

lemma example_alignment_ok: "alignment_ok example_alignment"
  by (simp add: alignment_ok_def example_alignment_def)

lemma example_cleaner_ok: "cleaner_ok example_cleaner"
  unfolding example_cleaner_def by (rule NEONCleaner_ok[OF example_alignment_ok])

text \<open>
  C4: for a well-formed alignment, every value that \<open>calculateMatrixIdentity\<close> stores for
  a pair of sequences is the value of the scalar reference, and so is every value that
  \<open>calculateSeqIdentity\<close> stores for a pair of kept sequences: the counters of the chunked
  vector scan equal the counters of the position-at-a-time scan, and the same \<open>float\<close>
  expression is evaluated on them.  This holds for every residue count \<open>n\<close> with
  \<open>n + 4080 < 2^31\<close>.
\<close>

theorem simd_scans_equal_scalar_reference:
  assumes "alignment_ok (alig st)" "matrixIdentity st = None" "cleaner_ok c"
    and "length si = n" "length sj = n" "n + 4080 < 2 ^ 31"
  shows "identity_counts aarch64 indet n (data si) (data sj)
           = Some (scalar_identity_counts indet n si sj)
    \<and> (\<exists>m. calculateMatrixIdentity aarch64 fresh st = Some (st\<lparr>matrixIdentity := Some m\<rparr>)
          \<and> (\<forall>i j. i < j \<and> j < originalNumberOfSequences (alig st)
                \<longrightarrow> m i j = reference_distance (alig st) i j
                  \<and> m j i = reference_distance (alig st) i j))
    \<and> (\<exists>m reps. calculateSeqIdentity aarch64 fresh' c
            = Some (c\<lparr>calig := (calig c)\<lparr>identities := m\<rparr>\<rparr>, reps)
          \<and> (\<forall>i j. i < j \<and> j < originalNumberOfSequences (calig c)
                  \<and> kept (calig c) i \<and> kept (calig c) j
                \<longrightarrow> m i j = reference_identity c i j \<and> m j i = reference_identity c i j))"
proof (intro conjI)
  show "identity_counts aarch64 indet n (data si) (data sj)
           = Some (scalar_identity_counts indet n si sj)"
    by (rule identity_counts_data[OF assms(4,5,6)])
next
  show "\<exists>m. calculateMatrixIdentity aarch64 fresh st = Some (st\<lparr>matrixIdentity := Some m\<rparr>)
          \<and> (\<forall>i j. i < j \<and> j < originalNumberOfSequences (alig st)
                \<longrightarrow> m i j = reference_distance (alig st) i j
                  \<and> m j i = reference_distance (alig st) i j)"
    unfolding calculateMatrixIdentity_result[OF assms(1,2)]
    by (intro exI conjI refl) (auto simp: min_def max_def)
next
  from calculateSeqIdentity_result[OF assms(3), of aarch64 fresh']
  obtain reps where r: "calculateSeqIdentity aarch64 fresh' c
     = Some (c\<lparr>calig := (calig c)\<lparr>identities := (\<lambda>a b.
          if a \<noteq> b \<and> a < originalNumberOfSequences (calig c)
               \<and> b < originalNumberOfSequences (calig c) \<and> kept (calig c) a \<and> kept (calig c) b
          then reference_identity c (min a b) (max a b)
          else if a = b \<and> a < originalNumberOfSequences (calig c) \<and> kept (calig c) a then Fin 0
          else fresh' a b)\<rparr>\<rparr>, reps)"
    by blast
  show "\<exists>m reps. calculateSeqIdentity aarch64 fresh' c
            = Some (c\<lparr>calig := (calig c)\<lparr>identities := m\<rparr>\<rparr>, reps)
          \<and> (\<forall>i j. i < j \<and> j < originalNumberOfSequences (calig c)
                  \<and> kept (calig c) i \<and> kept (calig c) j
                \<longrightarrow> m i j = reference_identity c i j \<and> m j i = reference_identity c i j)"
    unfolding r by (intro exI conjI refl) (auto simp: min_def max_def)
qed

theorem simd_scans_equal_scalar_reference_witness:
  "alignment_ok (alig example_similarity) \<and> matrixIdentity example_similarity = None
   \<and> cleaner_ok example_cleaner
   \<and> length (sequences example_alignment ! 0) = 20 \<and> length (sequences example_alignment ! 1) = 20
   \<and> (20 :: nat) + 4080 < 2 ^ 31
   \<and> identity_counts True 78 20 (data (sequences example_alignment ! 0))
        (data (sequences example_alignment ! 1)) = Some (17, 20)
   \<and> scalar_identity_counts 78 20 (sequences example_alignment ! 0)
        (sequences example_alignment ! 1) = (17, 20)
   \<and> (\<exists>m. calculateMatrixIdentity True (\<lambda>i j. NaN) example_similarity
              = Some (example_similarity\<lparr>matrixIdentity := Some m\<rparr>)
          \<and> m 0 1 = reference_distance example_alignment 0 1
          \<and> m 1 0 = reference_distance example_alignment 0 1)
   \<and> (\<exists>m reps. calculateSeqIdentity True (\<lambda>i j. NaN) example_cleaner
            = Some (example_cleaner\<lparr>calig := (calig example_cleaner)\<lparr>identities := m\<rparr>\<rparr>, reps)
          \<and> m 0 1 = reference_identity example_cleaner 0 1
          \<and> m 1 0 = reference_identity example_cleaner 0 1)"
proof -
  have h1: "alignment_ok (alig example_similarity)"
    by (simp add: example_similarity_def example_alignment_ok)
  have h2: "matrixIdentity example_similarity = None"
    by (simp add: example_similarity_def)
  have h3: "cleaner_ok example_cleaner" by (rule example_cleaner_ok)
  have h4: "length (sequences example_alignment ! 0) = 20"
    and h5: "length (sequences example_alignment ! 1) = 20"
    by (simp_all add: example_alignment_def)
  have h6: "(20 :: nat) + 4080 < 2 ^ 31" by simp
  have s: "scalar_identity_counts 78 20 (sequences example_alignment ! 0)
        (sequences example_alignment ! 1) = (17, 20)"
    by code_simp
  have a: "alig example_similarity = example_alignment" by (simp add: example_similarity_def)
  have k: "kept (calig example_cleaner) 0" "kept (calig example_cleaner) 1"
    "originalNumberOfSequences (calig example_cleaner) = 3"
    "originalNumberOfSequences example_alignment = 3"
    by (simp_all add: kept_def example_cleaner_def NEONCleaner_def example_alignment_def)
  note t = simd_scans_equal_scalar_reference[OF h1 h2 h3 h4 h5 h6,
      of True 78 "\<lambda>i j. NaN" "\<lambda>i j. NaN"]
  from t have t1: "identity_counts True 78 20 (data (sequences example_alignment ! 0))
        (data (sequences example_alignment ! 1)) = Some (17, 20)"
    by (simp only: conjunct1 s)
  from t obtain m where m: "calculateMatrixIdentity True (\<lambda>i j. NaN) example_similarity
              = Some (example_similarity\<lparr>matrixIdentity := Some m\<rparr>)"
      "\<forall>i j. i < j \<and> j < originalNumberOfSequences (alig example_similarity)
                \<longrightarrow> m i j = reference_distance (alig example_similarity) i j
                  \<and> m j i = reference_distance (alig example_similarity) i j"
    by blast
  from m(2) have m01: "m 0 1 = reference_distance example_alignment 0 1"
    "m 1 0 = reference_distance example_alignment 0 1"
    by (simp_all add: a k)
  from t obtain m' reps where m': "calculateSeqIdentity True (\<lambda>i j. NaN) example_cleaner
            = Some (example_cleaner\<lparr>calig := (calig example_cleaner)\<lparr>identities := m'\<rparr>\<rparr>, reps)"
      "\<forall>i j. i < j \<and> j < originalNumberOfSequences (calig example_cleaner)
                  \<and> kept (calig example_cleaner) i \<and> kept (calig example_cleaner) j
                \<longrightarrow> m' i j = reference_identity example_cleaner i j
                  \<and> m' j i = reference_identity example_cleaner i j"
    by blast
  from m'(2) have m'01: "m' 0 1 = reference_identity example_cleaner 0 1"
    "m' 1 0 = reference_identity example_cleaner 0 1"
    using k by simp_all
  show ?thesis
    using h1 h2 h3 h4 h5 h6 t1 s m(1) m01 m'(1) m'01 by blast
qed

section \<open>Symmetry\<close>

text \<open>
  C6: after \<open>calculateMatrixIdentity\<close> has filled the matrix of a well-formed alignment,
  \<open>matrixIdentity[i][j]\<close> and \<open>matrixIdentity[j][i]\<close> hold the same value for all distinct
  sequence indices; after \<open>calculateSeqIdentity\<close>, \<open>identities[i][j]\<close> and
  \<open>identities[j][i]\<close> hold the same value for all distinct kept sequences.
\<close>

theorem identity_matrices_symmetric:
  assumes "alignment_ok (alig st)" "matrixIdentity st = None" "cleaner_ok c"
  shows "(\<exists>m. calculateMatrixIdentity aarch64 fresh st = Some (st\<lparr>matrixIdentity := Some m\<rparr>)
          \<and> (\<forall>i j. i < originalNumberOfSequences (alig st) \<and> j < originalNumberOfSequences (alig st)
                  \<and> i \<noteq> j \<longrightarrow> m i j = m j i))
    \<and> (\<exists>m reps. calculateSeqIdentity aarch64 fresh' c
            = Some (c\<lparr>calig := (calig c)\<lparr>identities := m\<rparr>\<rparr>, reps)
          \<and> (\<forall>i j. i < originalNumberOfSequences (calig c) \<and> j < originalNumberOfSequences (calig c)
                  \<and> i \<noteq> j \<and> kept (calig c) i \<and> kept (calig c) j \<longrightarrow> m i j = m j i))"
proof (intro conjI)
  show "\<exists>m. calculateMatrixIdentity aarch64 fresh st = Some (st\<lparr>matrixIdentity := Some m\<rparr>)
          \<and> (\<forall>i j. i < originalNumberOfSequences (alig st) \<and> j < originalNumberOfSequences (alig st)
                  \<and> i \<noteq> j \<longrightarrow> m i j = m j i)"
    unfolding calculateMatrixIdentity_result[OF assms(1,2)]
    by (intro exI conjI refl) (auto simp: min.commute max.commute)
next
  from calculateSeqIdentity_result[OF assms(3), of aarch64 fresh']
  obtain reps where r: "calculateSeqIdentity aarch64 fresh' c
     = Some (c\<lparr>calig := (calig c)\<lparr>identities := (\<lambda>a b.
          if a \<noteq> b \<and> a < originalNumberOfSequences (calig c)
               \<and> b < originalNumberOfSequences (calig c) \<and> kept (calig c) a \<and> kept (calig c) b
          then reference_identity c (min a b) (max a b)
          else if a = b \<and> a < originalNumberOfSequences (calig c) \<and> kept (calig c) a then Fin 0
          else fresh' a b)\<rparr>\<rparr>, reps)"
    by blast
  show "\<exists>m reps. calculateSeqIdentity aarch64 fresh' c
            = Some (c\<lparr>calig := (calig c)\<lparr>identities := m\<rparr>\<rparr>, reps)
          \<and> (\<forall>i j. i < originalNumberOfSequences (calig c) \<and> j < originalNumberOfSequences (calig c)
                  \<and> i \<noteq> j \<and> kept (calig c) i \<and> kept (calig c) j \<longrightarrow> m i j = m j i)"
    unfolding r by (intro exI conjI refl) (auto simp: min.commute max.commute)
qed

theorem identity_matrices_symmetric_witness:
  "alignment_ok (alig example_similarity) \<and> matrixIdentity example_similarity = None
   \<and> cleaner_ok example_cleaner
   \<and> (\<exists>m. calculateMatrixIdentity True (\<lambda>i j. NaN) example_similarity
              = Some (example_similarity\<lparr>matrixIdentity := Some m\<rparr>)
          \<and> m 0 2 = m 2 0 \<and> m 1 2 = m 2 1)
   \<and> (\<exists>m reps. calculateSeqIdentity True (\<lambda>i j. NaN) example_cleaner
            = Some (example_cleaner\<lparr>calig := (calig example_cleaner)\<lparr>identities := m\<rparr>\<rparr>, reps)
          \<and> m 0 2 = m 2 0 \<and> m 1 2 = m 2 1)"
proof -
  have h1: "alignment_ok (alig example_similarity)"
    by (simp add: example_similarity_def example_alignment_ok)
  have h2: "matrixIdentity example_similarity = None"
    by (simp add: example_similarity_def)
  have h3: "cleaner_ok example_cleaner" by (rule example_cleaner_ok)
  have k: "kept (calig example_cleaner) 0" "kept (calig example_cleaner) 1"
    "kept (calig example_cleaner) 2"
    "originalNumberOfSequences (calig example_cleaner) = 3"
    "originalNumberOfSequences (alig example_similarity) = 3"
    by (simp_all add: kept_def example_cleaner_def NEONCleaner_def example_alignment_def
        example_similarity_def)
  note t = identity_matrices_symmetric[OF h1 h2 h3, of True "\<lambda>i j. NaN" "\<lambda>i j. NaN"]
  from t obtain m where m: "calculateMatrixIdentity True (\<lambda>i j. NaN) example_similarity
              = Some (example_similarity\<lparr>matrixIdentity := Some m\<rparr>)"
      "\<forall>i j. i < originalNumberOfSequences (alig example_similarity)
              \<and> j < originalNumberOfSequences (alig example_similarity)
              \<and> i \<noteq> j \<longrightarrow> m i j = m j i"
    by blast
  from m(2) have ms: "m 0 2 = m 2 0" "m 1 2 = m 2 1" using k by simp_all
  from t obtain m' reps where m': "calculateSeqIdentity True (\<lambda>i j. NaN) example_cleaner
            = Some (example_cleaner\<lparr>calig := (calig example_cleaner)\<lparr>identities := m'\<rparr>\<rparr>, reps)"
      "\<forall>i j. i < originalNumberOfSequences (calig example_cleaner)
              \<and> j < originalNumberOfSequences (calig example_cleaner)
              \<and> i \<noteq> j \<and> kept (calig example_cleaner) i \<and> kept (calig example_cleaner) j
            \<longrightarrow> m' i j = m' j i"
    by blast
  from m'(2) have m's: "m' 0 2 = m' 2 0" "m' 1 2 = m' 2 1" using k by simp_all
  show ?thesis
    using h1 h2 h3 m(1) ms m'(1) m's by blast
qed

section \<open>The column loop of calculateVectors\<close>

lemma fill_column_Inr:
  assumes "fill_column al sm i j (cn, cg) = Inr (cn', cg')"
    and "length cn = originalNumberOfSequences al" "length cg = originalNumberOfSequences al"
  shows "length cn' = originalNumberOfSequences al \<and> length cg' = originalNumberOfSequences al
    \<and> (\<forall>t < originalNumberOfSequences al.
          (t < j \<longrightarrow> cg' ! t = cg ! t \<and> cn' ! t = cn ! t)
        \<and> (j \<le> t \<longrightarrow> cg' ! t = (if column_gapped al i t then 1 else 0)
                    \<and> (\<not> column_gapped al i t \<longrightarrow> cn' ! t = column_class al sm i t)))"
  using assms
proof (induction al sm i j "(cn, cg)" arbitrary: cn cg rule: fill_column.induct)
  case (1 al sm i j)
  let ?N = "originalNumberOfSequences al"
  let ?letter = "toUpper (sequences al ! j ! i)"
  show ?case
  proof (cases "j < ?N")
    case False
    then have "fill_column al sm i j (cn, cg) = Inr (cn, cg)"
      by (subst fill_column.simps) simp
    with "1.prems" False show ?thesis by auto
  next
    case True
    show ?thesis
    proof (cases "column_gapped al i j")
      case g: True
      then have c: "?letter = indet_symbol al \<or> ?letter = chr_gap" by (simp add: column_gapped_def)
      have e: "fill_column al sm i j (cn, cg) = fill_column al sm i (j + 1) (cn, cg[j := 1])"
        by (subst fill_column.simps) (simp add: True c Let_def)
      have l: "length (cg[j := 1]) = ?N" using "1.prems"(3) by simp
      note ih = "1.hyps"(1)[OF True refl refl c "1.prems"(1)[unfolded e] "1.prems"(2) l]
      show ?thesis
      proof (intro conjI allI impI)
        show "length cn' = ?N" "length cg' = ?N" using ih by simp_all
      next
        fix t assume t: "t < ?N" "t < j"
        then show "cg' ! t = cg ! t" "cn' ! t = cn ! t" using ih by simp_all
      next
        fix t assume t: "t < ?N" "j \<le> t"
        show "cg' ! t = (if column_gapped al i t then 1 else 0)"
        proof (cases "t = j")
          case True
          then show ?thesis using ih t g "1.prems"(3) by simp
        next
          case False
          then show ?thesis using ih t by simp
        qed
        show "cn' ! t = column_class al sm i t" if "\<not> column_gapped al i t"
        proof (cases "t = j")
          case True
          then show ?thesis using g that by simp
        next
          case False
          then show ?thesis using ih t that by simp
        qed
      qed
    next
      case g: False
      then have c: "\<not> (?letter = indet_symbol al \<or> ?letter = chr_gap)"
        by (simp add: column_gapped_def)
      have r: "\<not> (?letter < of_char CHR ''A'' \<or> ?letter > of_char CHR ''Z'')"
        "vhash sm ! unat (?letter - of_char CHR ''A'') \<noteq> - 1"
        using "1.prems"(1) c True
        by (subst (asm) fill_column.simps, simp add: Let_def split: if_splits)+
      let ?cn1 = "cn[j := vhash sm ! unat (?letter - of_char CHR ''A'')]"
      have e: "fill_column al sm i j (cn, cg) = fill_column al sm i (j + 1) (?cn1, cg[j := 0])"
        using c r True by (subst fill_column.simps) (simp add: Let_def)
      have l: "length ?cn1 = ?N" "length (cg[j := 0]) = ?N" using "1.prems"(2,3) by simp_all
      note ih = "1.hyps"(2)[OF True refl refl c r "1.prems"(1)[unfolded e] l]
      show ?thesis
      proof (intro conjI allI impI)
        show "length cn' = ?N" "length cg' = ?N" using ih by simp_all
      next
        fix t assume t: "t < ?N" "t < j"
        then show "cg' ! t = cg ! t" "cn' ! t = cn ! t" using ih by simp_all
      next
        fix t assume t: "t < ?N" "j \<le> t"
        show "cg' ! t = (if column_gapped al i t then 1 else 0)"
        proof (cases "t = j")
          case True
          then show ?thesis using ih t g "1.prems"(3) by simp
        next
          case False
          then show ?thesis using ih t by simp
        qed
        show "cn' ! t = column_class al sm i t" if "\<not> column_gapped al i t"
        proof (cases "t = j")
          case True
          then show ?thesis using ih t "1.prems"(2) by (simp add: column_class_def)
        next
          case False
          then show ?thesis using ih t that by simp
        qed
      qed
    qed
  qed
qed


lemma fill_column_Inl:
  assumes "fill_column al sm i j bufs = Inl r"
  shows "fst r = IncorrectSymbol \<or> fst r = UndefinedSymbol"
  using assms
proof (induction al sm i j bufs rule: fill_column.induct)
  case (1 al sm i j bufs)
  obtain cn cg where b: "bufs = (cn, cg)" by (cases bufs)
  from "1.prems" show ?case
    apply (subst (asm) fill_column.simps)
    apply (simp add: b Let_def split: if_splits)
    using "1.IH"(1)[OF _ b[symmetric] refl] "1.IH"(2)[OF _ b[symmetric] refl]
    apply auto
    done
qed

lemma pairs_inner_cong:
  assumes "\<And>t. k \<le> t \<Longrightarrow> t < N \<Longrightarrow> cg ! t = cg' ! t \<and> (cg ! t = 0 \<longrightarrow> cn ! t = cn' ! t)"
  shows "pairs_inner N cn cg dr ir k acc = pairs_inner N cn' cg' dr ir k acc"
  using assms
proof (induction N cn cg dr ir k acc rule: pairs_inner.induct)
  case (1 N cn cg dr ir k acc)
  show ?case
  proof (cases "k < N")
    case False
    then show ?thesis
      by (subst pairs_inner.simps, subst (2) pairs_inner.simps) simp
  next
    case True
    have a: "cg ! k = cg' ! k" "cg ! k = 0 \<Longrightarrow> cn ! k = cn' ! k"
      using "1.prems"[of k] True by simp_all
    have p: "\<And>t. k + 1 \<le> t \<Longrightarrow> t < N \<Longrightarrow> cg ! t = cg' ! t \<and> (cg ! t = 0 \<longrightarrow> cn ! t = cn' ! t)"
      using "1.prems" by simp
    obtain num den where acc: "acc = (num, den)" by (cases acc)
    show ?thesis
    proof (cases "cg ! k \<noteq> 0")
      case g: True
      have L: "pairs_inner N cn cg dr ir k acc = pairs_inner N cn cg dr ir (k + 1) acc"
        by (subst pairs_inner.simps) (simp add: True g)
      have R: "pairs_inner N cn' cg' dr ir k acc = pairs_inner N cn' cg' dr ir (k + 1) acc"
        using g a(1) by (subst pairs_inner.simps) (simp add: True)
      show ?thesis
        unfolding L R by (rule "1.IH"(1)[OF True g p])
    next
      case g: False
      then have g0: "cg ! k = 0" by simp
      let ?acc1 = "(fadd num (fmul (ir k) (dr ! nat (cn ! k))), fadd den (ir k))"
      have L: "pairs_inner N cn cg dr ir k acc = pairs_inner N cn cg dr ir (k + 1) ?acc1"
        by (subst pairs_inner.simps) (simp add: True g0 acc Let_def)
      have R: "pairs_inner N cn' cg' dr ir k acc = pairs_inner N cn' cg' dr ir (k + 1) ?acc1"
        using g0 a(1) a(2)[OF g0] by (subst pairs_inner.simps) (simp add: True acc Let_def)
      show ?thesis
        unfolding L R by (rule "1.IH"(2)[OF True g acc[symmetric] refl p])
    qed
  qed
qed

lemma pairs_outer_cong:
  assumes "\<And>t. j \<le> t \<Longrightarrow> t < N \<Longrightarrow> cg ! t = cg' ! t \<and> (cg ! t = 0 \<longrightarrow> cn ! t = cn' ! t)"
  shows "pairs_outer N sm m cn cg j acc = pairs_outer N sm m cn' cg' j acc"
  using assms
proof (induction N sm m cn cg j acc rule: pairs_outer.induct)
  case (1 N sm m cn cg j acc)
  show ?case
  proof (cases "j < N")
    case False
    then show ?thesis
      by (subst pairs_outer.simps, subst (2) pairs_outer.simps) simp
  next
    case True
    have a: "cg ! j = cg' ! j" "cg ! j = 0 \<Longrightarrow> cn ! j = cn' ! j"
      using "1.prems"[of j] True by simp_all
    have p: "\<And>t. j + 1 \<le> t \<Longrightarrow> t < N \<Longrightarrow> cg ! t = cg' ! t \<and> (cg ! t = 0 \<longrightarrow> cn ! t = cn' ! t)"
      using "1.prems" by simp
    show ?thesis
    proof (cases "cg ! j \<noteq> 0")
      case g: True
      have L: "pairs_outer N sm m cn cg j acc = pairs_outer N sm m cn cg (j + 1) acc"
        by (subst pairs_outer.simps) (simp add: True g)
      have R: "pairs_outer N sm m cn' cg' j acc = pairs_outer N sm m cn' cg' (j + 1) acc"
        using g a(1) by (subst pairs_outer.simps) (simp add: True)
      show ?thesis
        unfolding L R by (rule "1.IH"(1)[OF True g p])
    next
      case g: False
      then have g0: "cg ! j = 0" by simp
      have i: "pairs_inner N cn cg dr ir (j + 1) acc = pairs_inner N cn' cg' dr ir (j + 1) acc" for dr ir
        by (rule pairs_inner_cong) (use p in blast)
      let ?acc1 = "pairs_inner N cn cg (distMat sm ! nat (cn ! j)) (m j) (j + 1) acc"
      have L: "pairs_outer N sm m cn cg j acc = pairs_outer N sm m cn cg (j + 1) ?acc1"
        by (subst pairs_outer.simps) (simp add: True g0 Let_def)
      have R: "pairs_outer N sm m cn' cg' j acc = pairs_outer N sm m cn' cg' (j + 1) ?acc1"
        using g0 a(1) a(2)[OF g0] by (subst pairs_outer.simps) (simp add: True Let_def i[folded Suc_eq_plus1])
      show ?thesis
        unfolding L R by (rule "1.IH"(2)[OF True g refl refl refl p])
    qed
  qed
qed

lemma fill_column_sums:
  assumes "fill_column al sm i 0 (cn, cg) = Inr (cn', cg')"
    and "length cn = originalNumberOfSequences al" "length cg = originalNumberOfSequences al"
  shows "pairs_outer (originalNumberOfSequences al) sm m cn' cg' 0 (Fin 0, Fin 0) = column_sums al sm m i"
  unfolding column_sums_def
proof (rule pairs_outer_cong)
  fix t assume t: "0 \<le> t" "t < originalNumberOfSequences al"
  from fill_column_Inr[OF assms] t
  have "cg' ! t = (if column_gapped al i t then 1 else 0)"
    "\<not> column_gapped al i t \<Longrightarrow> cn' ! t = column_class al sm i t"
    by simp_all
  then show "cg' ! t = column_gaps al i ! t \<and> (cg' ! t = 0 \<longrightarrow> cn' ! t = column_classes al sm i ! t)"
    using t by (auto simp: column_gaps_def column_classes_def)
qed

lemma columns_loop_result:
  assumes "columns_loop cbg al sm m i (mdk, cn, cg) = (ok, mdk', reps)"
    and "length cn = originalNumberOfSequences al" "length cg = originalNumberOfSequences al"
    and "length mdk = originalNumberOfResidues al"
  shows "length mdk' = originalNumberOfResidues al \<and> (\<forall>t<i. mdk' ! t = mdk ! t)
    \<and> (ok \<longrightarrow> reps = []
          \<and> (\<forall>t. i \<le> t \<and> t < originalNumberOfResidues al \<longrightarrow> mdk' ! t = column_value cbg al sm m t))
    \<and> (\<not> ok \<longrightarrow> (\<exists>c r. i \<le> c \<and> c < originalNumberOfResidues al \<and> reps = [r]
          \<and> (fst r = IncorrectSymbol \<or> fst r = UndefinedSymbol)
          \<and> \<not> column_cut cbg al c
          \<and> (\<forall>t. i \<le> t \<and> t < c \<longrightarrow> mdk' ! t = column_value cbg al sm m t)
          \<and> (\<forall>t. c \<le> t \<and> t < originalNumberOfResidues al \<longrightarrow> mdk' ! t = mdk ! t)))"
  using assms
proof (induction cbg al sm m i "(mdk, cn, cg)" arbitrary: mdk cn cg rule: columns_loop.induct)
  case (1 cbg al sm m i)
  let ?n = "originalNumberOfResidues al" and ?N = "originalNumberOfSequences al"
  show ?case
  proof (cases "i < ?n")
    case False
    have "columns_loop cbg al sm m i (mdk, cn, cg) = (True, mdk, [])"
      using False by (subst columns_loop.simps) simp
    with "1.prems" False show ?thesis by auto
  next
    case True
    show ?thesis
    proof (cases "column_cut cbg al i")
      case c: True
      then have c': "cbg \<and> fge (float_of_int (gapsWindow al ! i)) (gapThreshold al)"
        by (simp add: column_cut_def)
      have e: "columns_loop cbg al sm m i (mdk, cn, cg)
          = columns_loop cbg al sm m (i + 1) (mdk[i := Fin 0], cn, cg)"
        using c' by (subst columns_loop.simps) (simp add: True)
      have l: "length (mdk[i := Fin 0]) = ?n" using "1.prems"(4) by simp
      note ih = "1.hyps"(1)[OF True refl c' "1.prems"(1)[unfolded e] "1.prems"(2,3) l]
      have v: "mdk[i := Fin 0] ! i = column_value cbg al sm m i"
        using c True "1.prems"(4) by (simp add: column_value_def)
      have lt: "(\<forall>t<i + 1. mdk' ! t = mdk[i := Fin 0] ! t)" using ih by blast
      have pre: "\<forall>t<i. mdk' ! t = mdk ! t" using lt by simp
      have at: "mdk' ! i = column_value cbg al sm m i" using lt v by simp
      show ?thesis
      proof (intro conjI impI)
        show "length mdk' = ?n" using ih by blast
        show "\<forall>t<i. mdk' ! t = mdk ! t" by (rule pre)
      next
        assume ok
        with ih show "reps = []" by blast
        from ih \<open>ok\<close> have "\<forall>t. i + 1 \<le> t \<and> t < ?n \<longrightarrow> mdk' ! t = column_value cbg al sm m t"
          by blast
        with at show "\<forall>t. i \<le> t \<and> t < ?n \<longrightarrow> mdk' ! t = column_value cbg al sm m t"
          by (metis Suc_eq_plus1 Suc_leI le_neq_implies_less)
      next
        assume "\<not> ok"
        with ih obtain c r where cr: "i + 1 \<le> c" "c < ?n" "reps = [r]"
          "fst r = IncorrectSymbol \<or> fst r = UndefinedSymbol" "\<not> column_cut cbg al c"
          "\<forall>t. i + 1 \<le> t \<and> t < c \<longrightarrow> mdk' ! t = column_value cbg al sm m t"
          "\<forall>t. c \<le> t \<and> t < ?n \<longrightarrow> mdk' ! t = mdk[i := Fin 0] ! t"
          by blast
        have a: "\<forall>t. i \<le> t \<and> t < c \<longrightarrow> mdk' ! t = column_value cbg al sm m t"
          using cr(6) at by (metis Suc_eq_plus1 Suc_leI le_neq_implies_less)
        have b: "\<forall>t. c \<le> t \<and> t < ?n \<longrightarrow> mdk' ! t = mdk ! t"
          using cr(7) cr(1) by simp
        show "\<exists>c r. i \<le> c \<and> c < ?n \<and> reps = [r]
          \<and> (fst r = IncorrectSymbol \<or> fst r = UndefinedSymbol)
          \<and> \<not> column_cut cbg al c
          \<and> (\<forall>t. i \<le> t \<and> t < c \<longrightarrow> mdk' ! t = column_value cbg al sm m t)
          \<and> (\<forall>t. c \<le> t \<and> t < ?n \<longrightarrow> mdk' ! t = mdk ! t)"
          using cr(1,2,3,4,5) a b by (intro exI[of _ c] exI[of _ r]) simp
      qed
    next
      case c: False
      then have c': "\<not> (cbg \<and> fge (float_of_int (gapsWindow al ! i)) (gapThreshold al))"
        by (simp add: column_cut_def)
      show ?thesis
      proof (cases "fill_column al sm i 0 (cn, cg)")
        case (Inl rep)
        have e: "columns_loop cbg al sm m i (mdk, cn, cg) = (False, mdk, [rep])"
          using c' Inl by (subst columns_loop.simps) (auto simp: True)
        with "1.prems"(1) have r: "ok = False" "mdk' = mdk" "reps = [rep]" by simp_all
        have k: "fst rep = IncorrectSymbol \<or> fst rep = UndefinedSymbol"
          by (rule fill_column_Inl[OF Inl])
        show ?thesis
          unfolding r using "1.prems"(4) True c k
          by (auto intro!: exI[of _ i] exI[of _ rep])
      next
        case (Inr b)
        obtain cn1 cg1 where b: "b = (cn1, cg1)" by (cases b)
        note f = Inr[unfolded b]
        let ?v = "column_MDK (pairs_outer ?N sm m cn1 cg1 0 (Fin 0, Fin 0))"
        have e: "columns_loop cbg al sm m i (mdk, cn, cg)
            = columns_loop cbg al sm m (i + 1) (mdk[i := ?v], cn1, cg1)"
          using c' f by (subst columns_loop.simps) (auto simp: True)
        have lb: "length cn1 = ?N" "length cg1 = ?N"
          using fill_column_Inr[OF f "1.prems"(2,3)] by simp_all
        have l: "length (mdk[i := ?v]) = ?n" using "1.prems"(4) by simp
        note ih = "1.hyps"(2)[OF True refl c' Inr b[symmetric] "1.prems"(1)[unfolded e] lb l]
        have v: "mdk[i := ?v] ! i = column_value cbg al sm m i"
          using c True "1.prems"(4) fill_column_sums[OF f "1.prems"(2,3), of m]
          by (simp add: column_value_def)
        have lt: "(\<forall>t<i + 1. mdk' ! t = mdk[i := ?v] ! t)" using ih by blast
        have pre: "\<forall>t<i. mdk' ! t = mdk ! t" using lt by simp
        have at: "mdk' ! i = column_value cbg al sm m i" using lt v by simp
        show ?thesis
        proof (intro conjI impI)
          show "length mdk' = ?n" using ih by blast
          show "\<forall>t<i. mdk' ! t = mdk ! t" by (rule pre)
        next
          assume ok
          with ih show "reps = []" by blast
          from ih \<open>ok\<close> have "\<forall>t. i + 1 \<le> t \<and> t < ?n \<longrightarrow> mdk' ! t = column_value cbg al sm m t"
            by blast
          with at show "\<forall>t. i \<le> t \<and> t < ?n \<longrightarrow> mdk' ! t = column_value cbg al sm m t"
            by (metis Suc_eq_plus1 Suc_leI le_neq_implies_less)
        next
          assume "\<not> ok"
          with ih obtain c r where cr: "i + 1 \<le> c" "c < ?n" "reps = [r]"
            "fst r = IncorrectSymbol \<or> fst r = UndefinedSymbol" "\<not> column_cut cbg al c"
            "\<forall>t. i + 1 \<le> t \<and> t < c \<longrightarrow> mdk' ! t = column_value cbg al sm m t"
            "\<forall>t. c \<le> t \<and> t < ?n \<longrightarrow> mdk' ! t = mdk[i := ?v] ! t"
            by blast
          have a: "\<forall>t. i \<le> t \<and> t < c \<longrightarrow> mdk' ! t = column_value cbg al sm m t"
            using cr(6) at by (metis Suc_eq_plus1 Suc_leI le_neq_implies_less)
          have b: "\<forall>t. c \<le> t \<and> t < ?n \<longrightarrow> mdk' ! t = mdk ! t"
            using cr(7) cr(1) by simp
          show "\<exists>c r. i \<le> c \<and> c < ?n \<and> reps = [r]
            \<and> (fst r = IncorrectSymbol \<or> fst r = UndefinedSymbol)
            \<and> \<not> column_cut cbg al c
            \<and> (\<forall>t. i \<le> t \<and> t < c \<longrightarrow> mdk' ! t = column_value cbg al sm m t)
            \<and> (\<forall>t. c \<le> t \<and> t < ?n \<longrightarrow> mdk' ! t = mdk ! t)"
            using cr(1,2,3,4,5) a b by (intro exI[of _ c] exI[of _ r]) simp
        qed
      qed
    qed
  qed
qed

lemma identity_matrix_for_state:
  assumes "identity_matrix_for aarch64 fresh st = Some m"
  shows "(if matrixIdentity st = None then calculateMatrixIdentity aarch64 fresh st else Some st)
     = Some (st\<lparr>matrixIdentity := Some m\<rparr>)"
proof (cases "matrixIdentity st")
  case None
  with assms obtain st1 where c: "calculateMatrixIdentity aarch64 fresh st = Some st1"
    and m: "matrixIdentity st1 = Some m"
    by (auto simp: identity_matrix_for_def split: option.splits)
  from c None obtain m' where "st1 = st\<lparr>matrixIdentity := Some m'\<rparr>"
    by (auto simp: calculateMatrixIdentity_def split: option.splits)
  with m have "st1 = st\<lparr>matrixIdentity := Some m\<rparr>" by simp
  with c None show ?thesis by simp
next
  case (Some a)
  with assms show ?thesis by (simp add: identity_matrix_for_def)
qed

lemma calculateVectors_unfold:
  assumes "simMatrix st = Some sm" "identity_matrix_for aarch64 fresh st = Some m"
  shows "calculateVectors aarch64 fresh cutByGap st
     = (case columns_loop cutByGap (alig st) sm m 0
             (MDK st, replicate (originalNumberOfSequences (alig st)) 0,
              replicate (originalNumberOfSequences (alig st)) 0) of
          (ok, mdk, reps) \<Rightarrow>
            (if ok then Some (True, st\<lparr>MDK := mdk, matrixIdentity := None\<rparr>, reps)
             else Some (False, st\<lparr>MDK := mdk, matrixIdentity := Some m\<rparr>, reps)))"
  unfolding calculateVectors_def identity_matrix_for_state[OF assms(2)]
  by (simp add: assms(1) Let_def split: prod.splits)

lemma calculateVectors_success:
  assumes "simMatrix st = Some sm" "identity_matrix_for aarch64 fresh st = Some m"
    and "length (MDK st) = originalNumberOfResidues (alig st)"
    and "calculateVectors aarch64 fresh cutByGap st = Some (True, st', reps)"
  shows "matrixIdentity st' = None
    \<and> (\<forall>t < originalNumberOfResidues (alig st). MDK st' ! t = column_value cutByGap (alig st) sm m t)"
proof -
  obtain ok mdk r where l: "columns_loop cutByGap (alig st) sm m 0
             (MDK st, replicate (originalNumberOfSequences (alig st)) 0,
              replicate (originalNumberOfSequences (alig st)) 0) = (ok, mdk, r)"
    by (metis prod_cases3)
  from assms(4) have ok: "ok" and st': "st' = st\<lparr>MDK := mdk, matrixIdentity := None\<rparr>"
    unfolding calculateVectors_unfold[OF assms(1,2)] l by (simp_all split: if_splits)
  from columns_loop_result[OF l _ _ assms(3)] ok
  have "\<forall>t. 0 \<le> t \<and> t < originalNumberOfResidues (alig st)
      \<longrightarrow> mdk ! t = column_value cutByGap (alig st) sm m t"
    by simp
  then show ?thesis by (simp add: st')
qed

lemma calculateVectors_failure:
  assumes "simMatrix st = Some sm" "identity_matrix_for aarch64 fresh st = Some m"
    and "length (MDK st) = originalNumberOfResidues (alig st)"
    and "calculateVectors aarch64 fresh cutByGap st = Some (False, st', reps)"
  shows "matrixIdentity st' = Some m
    \<and> (\<exists>c r. c < originalNumberOfResidues (alig st) \<and> reps = [r]
          \<and> (fst r = IncorrectSymbol \<or> fst r = UndefinedSymbol)
          \<and> (\<forall>t < c. MDK st' ! t = column_value cutByGap (alig st) sm m t)
          \<and> (\<forall>t. c \<le> t \<and> t < originalNumberOfResidues (alig st) \<longrightarrow> MDK st' ! t = MDK st ! t))"
proof -
  obtain ok mdk r where l: "columns_loop cutByGap (alig st) sm m 0
             (MDK st, replicate (originalNumberOfSequences (alig st)) 0,
              replicate (originalNumberOfSequences (alig st)) 0) = (ok, mdk, r)"
    by (metis prod_cases3)
  from assms(4) have ok: "\<not> ok" and st': "st' = st\<lparr>MDK := mdk, matrixIdentity := Some m\<rparr>"
    and r: "reps = r"
    unfolding calculateVectors_unfold[OF assms(1,2)] l by (simp_all split: if_splits)
  from columns_loop_result[OF l _ _ assms(3)] ok
  obtain c x where "c < originalNumberOfResidues (alig st)" "r = [x]"
    "fst x = IncorrectSymbol \<or> fst x = UndefinedSymbol"
    "\<forall>t. 0 \<le> t \<and> t < c \<longrightarrow> mdk ! t = column_value cutByGap (alig st) sm m t"
    "\<forall>t. c \<le> t \<and> t < originalNumberOfResidues (alig st) \<longrightarrow> mdk ! t = MDK st ! t"
    by auto
  then show ?thesis
    unfolding st' r by (intro conjI exI[of _ c] exI[of _ x]) simp_all
qed

section \<open>calculateVectors on the examples\<close>

lemma example2_alignment_ok: "alignment_ok example2_alignment"
  by (simp add: alignment_ok_def example2_alignment_def)

lemma example2_counts:
  "scalar_identity_counts (indet_symbol example2_alignment)
     (originalNumberOfResidues example2_alignment)
     (sequences example2_alignment ! 0) (sequences example2_alignment ! 1) = (1, 2)"
  by code_simp

lemma example2_distance: "reference_distance example2_alignment 0 1 = Fin (1 / 2)"
  unfolding reference_distance_def example2_counts
  by (simp add: identity_distance_def float_of_nat_def fsub_def)

lemma example2_matrix_for:
  "identity_matrix_for True (\<lambda>i j. Fin 0) example2_similarity = Some example2_matrix"
proof -
  have a: "alignment_ok (alig example2_similarity)"
    by (simp add: example2_similarity_def example2_alignment_ok)
  have n: "matrixIdentity example2_similarity = None" by (simp add: example2_similarity_def)
  have e: "alig example2_similarity = example2_alignment" by (simp add: example2_similarity_def)
  show ?thesis
    unfolding identity_matrix_for_def calculateMatrixIdentity_result[OF a n] n e
    by (simp add: example2_matrix_def example2_alignment_def cong: if_cong)
qed

lemma example2_matrix_01: "example2_matrix 0 (Suc 0) = Fin (1 / 2)"
  using example2_distance by (simp add: example2_matrix_def)

lemma example2_columns:
  "columns_loop False example2_alignment example_simMatrix example2_matrix 0
     ([Fin 0, Fin 0], [0, 0], [0, 0]) = (True, [Fin 1, Fin (real_exp (- 1))], [])"
  by (simp add: columns_loop.simps fill_column.simps pairs_outer.simps pairs_inner.simps
      example2_alignment_def example_simMatrix_def toUpper_def indet_symbol_def chr_gap_def
      column_MDK_def Let_def example2_matrix_01 real_exp_def)

lemma example2_sums:
  "column_sums example2_alignment example_simMatrix example2_matrix 1 = (Fin (1 / 2), Fin (1 / 2))"
  by (simp add: column_sums_def column_classes_def column_gaps_def column_gapped_def
      column_class_def pairs_outer.simps pairs_inner.simps upt_rec_numeral
      example2_alignment_def example_simMatrix_def toUpper_def indet_symbol_def chr_gap_def
      Let_def example2_matrix_01)

lemma example2_run:
  "calculateVectors True (\<lambda>i j. Fin 0) False example2_similarity
     = Some (True, example2_similarity\<lparr>MDK := [Fin 1, Fin (real_exp (- 1))], matrixIdentity := None\<rparr>, [])"
proof -
  have s: "simMatrix example2_similarity = Some example_simMatrix"
    by (simp add: example2_similarity_def)
  have c: "columns_loop False (alig example2_similarity) example_simMatrix example2_matrix 0
             (MDK example2_similarity,
              replicate (originalNumberOfSequences (alig example2_similarity)) 0,
              replicate (originalNumberOfSequences (alig example2_similarity)) 0)
        = (True, [Fin 1, Fin (real_exp (- 1))], [])"
    using example2_columns
    by (simp add: example2_similarity_def example2_alignment_def numeral_2_eq_2)
  show ?thesis
    unfolding calculateVectors_unfold[OF s example2_matrix_for] c by simp
qed

lemma example3_alignment_ok: "alignment_ok example3_alignment"
  by (simp add: alignment_ok_def example3_alignment_def example2_alignment_def)

lemma example3_counts:
  "scalar_identity_counts (indet_symbol example3_alignment)
     (originalNumberOfResidues example3_alignment)
     (sequences example3_alignment ! 0) (sequences example3_alignment ! 1) = (1, 2)"
  by code_simp

lemma example3_distance: "reference_distance example3_alignment 0 1 = Fin (1 / 2)"
  unfolding reference_distance_def example3_counts
  by (simp add: identity_distance_def float_of_nat_def fsub_def)

lemma example3_matrix_for:
  "identity_matrix_for True (\<lambda>i j. Fin 0) example3_similarity = Some example3_matrix"
proof -
  have e: "alig example3_similarity = example3_alignment" by (simp add: example3_similarity_def)
  have a: "alignment_ok (alig example3_similarity)"
    unfolding e by (rule example3_alignment_ok)
  have n: "matrixIdentity example3_similarity = None"
    by (simp add: example3_similarity_def example2_similarity_def)
  show ?thesis
    unfolding identity_matrix_for_def calculateMatrixIdentity_result[OF a n] n e
    by (simp add: example3_matrix_def example3_alignment_def example2_alignment_def cong: if_cong)
qed

lemma example3_matrix_01: "example3_matrix 0 (Suc 0) = Fin (1 / 2)"
  using example3_distance by (simp add: example3_matrix_def)

lemma char_of_42: "char_of (42 :: nat) = CHR ''*''"
  by code_simp

lemma example3_columns:
  "columns_loop False example3_alignment example_simMatrix example3_matrix 0
     ([Fin 0, Fin 0], [0, 0], [0, 0]) = (False, [Fin 1, Fin 0], [(IncorrectSymbol, [''*''])])"
  by (simp add: columns_loop.simps fill_column.simps pairs_outer.simps pairs_inner.simps
      example3_alignment_def example2_alignment_def example_simMatrix_def toUpper_def
      indet_symbol_def chr_gap_def string_of_letter_def
      column_MDK_def Let_def example3_matrix_01 real_exp_def char_of_42)

lemma example3_run:
  "calculateVectors True (\<lambda>i j. Fin 0) False example3_similarity
     = Some (False, example3_similarity\<lparr>MDK := [Fin 1, Fin 0], matrixIdentity := Some example3_matrix\<rparr>,
             [(IncorrectSymbol, [''*''])])"
proof -
  have s: "simMatrix example3_similarity = Some example_simMatrix"
    by (simp add: example3_similarity_def example2_similarity_def)
  have c: "columns_loop False (alig example3_similarity) example_simMatrix example3_matrix 0
             (MDK example3_similarity,
              replicate (originalNumberOfSequences (alig example3_similarity)) 0,
              replicate (originalNumberOfSequences (alig example3_similarity)) 0)
        = (False, [Fin 1, Fin 0], [(IncorrectSymbol, [''*''])])"
    using example3_columns
    by (simp add: example3_similarity_def example2_similarity_def example3_alignment_def
        example2_alignment_def numeral_2_eq_2)
  show ?thesis
    unfolding calculateVectors_unfold[OF s example3_matrix_for] c by simp
qed

end
